theory Spec2Isabelle
  imports Main "HOL-Library.Word"
begin

section \<open>Data model\<close>

text \<open>
  Step indices, capacities, vector indices held in variables and metric counters are
  \<^verbatim>\<open>size_t\<close> in the source; they are modelled as 64-bit words, so that
  \<^verbatim>\<open>rightStep - leftStep\<close>, \<^verbatim>\<open>maxNumSlots_++\<close> and the driver's
  \<^verbatim>\<open>i + 1 > 0\<close> wrap around as they do in the program. Positions inside the slot
  vector are natural numbers (a vector never holds \<open>2 ^ 64\<close> elements).
\<close>

type_synonym size_t = "64 word"

text \<open>
  The only failure of the strategy code is a failed \<^verbatim>\<open>assert\<close>, which aborts the
  program; it is an error value of the model.
\<close>

datatype error = AssertionFailure

text \<open>
  Modelled from the spec: \<^verbatim>\<open>checkpoint_strategy.hpp\<close> (the abstract class
  \<^verbatim>\<open>CheckpointStrategy\<close> with \<^verbatim>\<open>invalidCheckpointIndex\<close>,
  \<^verbatim>\<open>valid_checkpoint_index\<close> and the record \<^verbatim>\<open>CheckpointMetrics\<close>) is not among
  the sources. The spec: "the invalid-checkpoint-index is the maximum value of the step
  type", "\<^verbatim>\<open>valid_checkpoint_index(i)\<close>: true iff \<^verbatim>\<open>i\<close> is not the invalid sentinel",
  "CheckpointMetrics: plain record: stores count, evictions count, recomputations count".
\<close>

definition invalidCheckpointIndex :: size_t where
  "invalidCheckpointIndex = - 1"

definition valid_checkpoint_index :: "size_t \<Rightarrow> bool" where
  "valid_checkpoint_index i \<longleftrightarrow> i \<noteq> invalidCheckpointIndex"

record CheckpointMetrics =
  stores :: size_t
  evictions :: size_t
  recomputations :: size_t

text \<open>\<^verbatim>\<open>struct Slot { size_t step; bool persistent; }\<close>\<close>

record Slot =
  step :: size_t
  persistent :: bool

text \<open>The private members \<^verbatim>\<open>maxNumSlots_\<close>, \<^verbatim>\<open>slots_\<close>, \<^verbatim>\<open>metrics_\<close>.\<close>

record OnlineR2CheckpointStrategy =
  maxNumSlots :: size_t
  slots :: "Slot list"
  metrics :: CheckpointMetrics

text \<open>The constructor: \<^verbatim>\<open>maxNumSlots_(maxStates)\<close>, no slots, zeroed metrics.\<close>

definition new_OnlineR2CheckpointStrategy :: "size_t \<Rightarrow> OnlineR2CheckpointStrategy" where
  "new_OnlineR2CheckpointStrategy maxStates =
     \<lparr>maxNumSlots = maxStates, slots = [],
      metrics = \<lparr>stores = 0, evictions = 0, recomputations = 0\<rparr>\<rparr>"

section \<open>OnlineR2CheckpointStrategy\<close>

subsection \<open>find\_eviction\_candidate\<close>

text \<open>
  The merged gap of position \<open>i\<close>, as the loop body computes it: the step of the left
  neighbour (0 at the front) subtracted from the step of the right neighbour
  (\<open>newStep\<close> at the back), in \<^verbatim>\<open>size_t\<close> arithmetic.
\<close>

definition leftStep :: "Slot list \<Rightarrow> nat \<Rightarrow> size_t" where
  "leftStep sl i = (if i > 0 then step (sl ! (i - 1)) else 0)"

definition rightStep :: "Slot list \<Rightarrow> size_t \<Rightarrow> nat \<Rightarrow> size_t" where
  "rightStep sl newStep i = (if i + 1 < length sl then step (sl ! (i + 1)) else newStep)"

definition mergedGap :: "Slot list \<Rightarrow> size_t \<Rightarrow> nat \<Rightarrow> size_t" where
  "mergedGap sl newStep i = rightStep sl newStep i - leftStep sl i"

text \<open>
  One iteration of the \<^verbatim>\<open>for\<close> loop on the pair \<open>(bestIdx, bestMergedGap)\<close>:
  persistent slots are skipped, and a slot becomes the candidate only when its merged
  gap is strictly smaller than the best so far.
\<close>

definition eviction_step ::
  "Slot list \<Rightarrow> size_t \<Rightarrow> nat \<Rightarrow> nat \<times> size_t \<Rightarrow> nat \<times> size_t" where
  "eviction_step sl newStep i best =
     (if persistent (sl ! i) then best
      else if mergedGap sl newStep i < snd best then (i, mergedGap sl newStep i)
      else best)"

definition find_eviction_candidate :: "OnlineR2CheckpointStrategy \<Rightarrow> size_t \<Rightarrow> nat" where
  "find_eviction_candidate st newStep =
     fst (fold (eviction_step (slots st) newStep) [0..<length (slots st)]
            (length (slots st), - 1))"

subsection \<open>add\_checkpoint\_and\_get\_index\_to\_remove\<close>

text \<open>
  \<^verbatim>\<open>std::lower_bound\<close> with the comparison \<^verbatim>\<open>s.step < st\<close>: the first position whose
  slot has a step not below \<open>st\<close>, which is the result the standard specifies for a
  range sorted by step (for other ranges it specifies none; the vector is sorted in
  every state the public operations reach, see \<open>strategy_inv_run\<close>). Then
  \<^verbatim>\<open>slots_.insert\<close> at that position and \<^verbatim>\<open>slots_.erase\<close> of a position.
\<close>

fun lower_bound :: "Slot list \<Rightarrow> size_t \<Rightarrow> nat" where
  "lower_bound [] st = 0"
| "lower_bound (s # sl) st = (if step s < st then Suc (lower_bound sl st) else 0)"

definition insert_at :: "nat \<Rightarrow> 'a \<Rightarrow> 'a list \<Rightarrow> 'a list" where
  "insert_at n x xs = take n xs @ x # drop n xs"

definition erase_at :: "nat \<Rightarrow> 'a list \<Rightarrow> 'a list" where
  "erase_at n xs = take n xs @ drop (Suc n) xs"

definition insert_sorted :: "Slot \<Rightarrow> Slot list \<Rightarrow> Slot list" where
  "insert_sorted newSlot sl = insert_at (lower_bound sl (step newSlot)) newSlot sl"

text \<open>
  The two metric updates at the end of the function: \<^verbatim>\<open>stores++\<close> always,
  \<^verbatim>\<open>evictions++\<close> when the returned value is a valid index.
\<close>

definition count_add :: "size_t \<Rightarrow> CheckpointMetrics \<Rightarrow> CheckpointMetrics" where
  "count_add nextEraseStep m =
     (let m1 = m\<lparr>stores := stores m + 1\<rparr>
      in if valid_checkpoint_index nextEraseStep then m1\<lparr>evictions := evictions m1 + 1\<rparr>
         else m1)"

text \<open>
  The function returns the step to erase and the new strategy state, or the failure of
  \<^verbatim>\<open>assert(slots_.size() < maxNumSlots_)\<close> on a persistent add.
\<close>

definition add_checkpoint_and_get_index_to_remove ::
  "OnlineR2CheckpointStrategy \<Rightarrow> size_t \<Rightarrow> bool \<Rightarrow> error + (size_t \<times> OnlineR2CheckpointStrategy)"
  where
  "add_checkpoint_and_get_index_to_remove st stp pers =
     (let newSlot = \<lparr>step = stp, persistent = pers\<rparr>;
          st1 = (if pers then st\<lparr>maxNumSlots := maxNumSlots st + 1\<rparr> else st)
      in if pers \<and> \<not> length (slots st1) < unat (maxNumSlots st1) then Inl AssertionFailure
         else if length (slots st1) < unat (maxNumSlots st1) then
           Inr (invalidCheckpointIndex,
                st1\<lparr>slots := insert_sorted newSlot (slots st1),
                    metrics := count_add invalidCheckpointIndex (metrics st1)\<rparr>)
         else
           (let evictIdx = find_eviction_candidate st1 stp
            in if evictIdx < length (slots st1) then
                 (let nextEraseStep = step (slots st1 ! evictIdx)
                  in Inr (nextEraseStep,
                          st1\<lparr>slots := insert_sorted newSlot (erase_at evictIdx (slots st1)),
                              metrics := count_add nextEraseStep (metrics st1)\<rparr>))
               else
                 Inr (invalidCheckpointIndex,
                      st1\<lparr>metrics := count_add invalidCheckpointIndex (metrics st1)\<rparr>)))"

subsection \<open>The other operations\<close>

definition last_checkpoint_step :: "OnlineR2CheckpointStrategy \<Rightarrow> error + size_t" where
  "last_checkpoint_step st =
     (if slots st = [] then Inl AssertionFailure else Inr (step (last (slots st))))"

text \<open>
  The loop of \<^verbatim>\<open>erase_step\<close>: the first slot with the given step that is not
  persistent is erased and the loop returns; a persistent slot with that step is passed
  over.
\<close>

fun erase_step_loop :: "Slot list \<Rightarrow> size_t \<Rightarrow> bool \<times> Slot list" where
  "erase_step_loop [] stepIndex = (False, [])"
| "erase_step_loop (s # sl) stepIndex =
     (if step s = stepIndex \<and> \<not> persistent s then (True, sl)
      else (case erase_step_loop sl stepIndex of (b, sl') \<Rightarrow> (b, s # sl')))"

definition erase_step ::
  "OnlineR2CheckpointStrategy \<Rightarrow> size_t \<Rightarrow> bool \<times> OnlineR2CheckpointStrategy" where
  "erase_step st stepIndex =
     (case erase_step_loop (slots st) stepIndex of (b, sl') \<Rightarrow> (b, st\<lparr>slots := sl'\<rparr>))"

fun contains_step_loop :: "Slot list \<Rightarrow> size_t \<Rightarrow> bool" where
  "contains_step_loop [] stepIndex = False"
| "contains_step_loop (s # sl) stepIndex =
     (if step s = stepIndex then True else contains_step_loop sl stepIndex)"

definition contains_step :: "OnlineR2CheckpointStrategy \<Rightarrow> size_t \<Rightarrow> bool" where
  "contains_step st stepIndex = contains_step_loop (slots st) stepIndex"

definition reset :: "OnlineR2CheckpointStrategy \<Rightarrow> OnlineR2CheckpointStrategy" where
  "reset st = st\<lparr>slots := filter persistent (slots st)\<rparr>"

definition capacity :: "OnlineR2CheckpointStrategy \<Rightarrow> size_t" where
  "capacity st = maxNumSlots st"

definition size_slots :: "OnlineR2CheckpointStrategy \<Rightarrow> nat" where
  "size_slots st = length (slots st)"

definition reset_metrics :: "OnlineR2CheckpointStrategy \<Rightarrow> OnlineR2CheckpointStrategy" where
  "reset_metrics st = st\<lparr>metrics := \<lparr>stores = 0, evictions = 0, recomputations = 0\<rparr>\<rparr>"

definition record_recomputation :: "OnlineR2CheckpointStrategy \<Rightarrow> OnlineR2CheckpointStrategy" where
  "record_recomputation st =
     st\<lparr>metrics := (metrics st)\<lparr>recomputations := recomputations (metrics st) + 1\<rparr>\<rparr>"

subsection \<open>The eviction loop's invariant\<close>

text \<open>
  What the pair \<open>(bestIdx, bestMergedGap)\<close> holds after the first \<open>k\<close> iterations of the
  loop of \<^verbatim>\<open>find_eviction_candidate\<close>: either nothing was selected yet (every
  non-persistent slot seen has the merged gap \<open>SIZE_MAX\<close>), or the first non-persistent
  slot with the least merged gap among those seen.
\<close>

definition best_so_far :: "Slot list \<Rightarrow> size_t \<Rightarrow> nat \<Rightarrow> nat \<times> size_t \<Rightarrow> bool" where
  "best_so_far sl ns k best \<longleftrightarrow>
     (fst best = length sl \<and> snd best = - 1 \<and>
        (\<forall>j<k. \<not> persistent (sl ! j) \<longrightarrow> mergedGap sl ns j = - 1)) \<or>
     (fst best < k \<and> \<not> persistent (sl ! fst best) \<and> snd best = mergedGap sl ns (fst best) \<and>
        snd best \<noteq> - 1 \<and>
        (\<forall>j<k. \<not> persistent (sl ! j) \<longrightarrow> snd best \<le> mergedGap sl ns j) \<and>
        (\<forall>j<fst best. \<not> persistent (sl ! j) \<longrightarrow> snd best < mergedGap sl ns j))"


section \<open>Sequences of public operations\<close>

text \<open>
  The state-changing public operations of the class, and a run of a list of them on a
  strategy; a failed assertion ends the run.
\<close>

datatype operation =
    Add size_t bool
  | EraseStep size_t
  | Reset
  | ResetMetrics
  | RecordRecomputation

fun apply_operation ::
  "OnlineR2CheckpointStrategy \<Rightarrow> operation \<Rightarrow> error + OnlineR2CheckpointStrategy" where
  "apply_operation st (Add s p) =
     (case add_checkpoint_and_get_index_to_remove st s p of
        Inl e \<Rightarrow> Inl e
      | Inr (r, st') \<Rightarrow> Inr st')"
| "apply_operation st (EraseStep s) = Inr (snd (erase_step st s))"
| "apply_operation st Reset = Inr (reset st)"
| "apply_operation st ResetMetrics = Inr (reset_metrics st)"
| "apply_operation st RecordRecomputation = Inr (record_recomputation st)"

fun run_operations ::
  "OnlineR2CheckpointStrategy \<Rightarrow> operation list \<Rightarrow> error + OnlineR2CheckpointStrategy" where
  "run_operations st [] = Inr st"
| "run_operations st (x # xs) =
     (case apply_operation st x of Inl e \<Rightarrow> Inl e | Inr st' \<Rightarrow> run_operations st' xs)"

fun is_persistent_add :: "operation \<Rightarrow> bool" where
  "is_persistent_add (Add s p) = p"
| "is_persistent_add _ = False"

definition persistent_adds :: "operation list \<Rightarrow> nat" where
  "persistent_adds ops = length (filter is_persistent_add ops)"

text \<open>
  The invariant of a strategy constructed with \<open>c\<close> non-persistent slots: the vector is
  sorted by step, it holds at most \<open>maxNumSlots_\<close> slots, and the persistent slots
  leave room for \<open>c\<close> others.
\<close>

definition strategy_inv :: "nat \<Rightarrow> OnlineR2CheckpointStrategy \<Rightarrow> bool" where
  "strategy_inv c st \<longleftrightarrow>
     sorted (map step (slots st)) \<and>
     length (slots st) \<le> unat (maxNumSlots st) \<and>
     length (filter persistent (slots st)) + c \<le> unat (maxNumSlots st)"


section \<open>The forward/reverse driver\<close>

text \<open>
  Modelled from the spec: the abstract class \<^verbatim>\<open>CheckpointStrategy\<close>
  (\<^verbatim>\<open>checkpoint_strategy.hpp\<close>) is not among the sources. The driver calls four of its
  virtual operations on \<^verbatim>\<open>cps\<close>; a strategy is the record of these operations over its
  own state type, and \<^verbatim>\<open>OnlineR2CheckpointStrategy\<close> is one instance. (The default
  strategy of the driver, \<^verbatim>\<open>WangCheckpointStrategy\<close>, is not among the sources
  either: the model covers calls that pass a strategy.)
\<close>

record 's CheckpointStrategy =
  strategy_add :: "'s \<Rightarrow> size_t \<Rightarrow> bool \<Rightarrow> error + (size_t \<times> 's)"
  strategy_last :: "'s \<Rightarrow> error + size_t"
  strategy_erase :: "'s \<Rightarrow> size_t \<Rightarrow> bool \<times> 's"
  strategy_record :: "'s \<Rightarrow> 's"

definition OnlineR2_strategy :: "OnlineR2CheckpointStrategy CheckpointStrategy" where
  "OnlineR2_strategy =
     \<lparr>strategy_add = add_checkpoint_and_get_index_to_remove,
      strategy_last = last_checkpoint_step,
      strategy_erase = erase_step,
      strategy_record = record_recomputation\<rparr>"

text \<open>
  What the driver needs of the template parameter \<open>T\<close>: the value-initialised \<open>T\<close> that
  \<^verbatim>\<open>std::map::operator[]\<close> inserts for a missing key, and the two implicit conversions of
  \<^verbatim>\<open>double xf = x; ... return xf;\<close>, composed (from \<open>T\<close> to \<^verbatim>\<open>double\<close> and back).
\<close>

record 'a state_type =
  value_init :: 'a
  via_double :: "'a \<Rightarrow> 'a"

text \<open>\<^verbatim>\<open>savedCps[k]\<close> as an rvalue: the stored state, or a default one that is inserted.\<close>

definition map_subscript :: "'a \<Rightarrow> (size_t \<rightharpoonup> 'a) \<Rightarrow> size_t \<Rightarrow> 'a \<times> (size_t \<rightharpoonup> 'a)" where
  "map_subscript d m k = (case m k of Some v \<Rightarrow> (v, m) | None \<Rightarrow> (d, m(k \<mapsto> d)))"

text \<open>
  \<^verbatim>\<open>if (cps.valid_checkpoint_index(eraseStep)) savedCps.erase(eraseStep);\<close> followed by
  \<^verbatim>\<open>savedCps[k] = v;\<close>
\<close>

definition store_step ::
  "size_t \<Rightarrow> size_t \<Rightarrow> 'a \<Rightarrow> (size_t \<rightharpoonup> 'a) \<Rightarrow> (size_t \<rightharpoonup> 'a)" where
  "store_step eraseStep k v m =
     (let m1 = (if valid_checkpoint_index eraseStep then m(eraseStep := None) else m)
      in m1(k \<mapsto> v))"

text \<open>The forward sweep \<^verbatim>\<open>for (size_t i = 0; i < numSteps; ++i)\<close>.\<close>

function forward_loop ::
  "'s CheckpointStrategy \<Rightarrow> 'a \<Rightarrow> (size_t \<Rightarrow> 'a \<Rightarrow> 'a) \<Rightarrow> size_t \<Rightarrow> size_t \<Rightarrow>
     'a \<Rightarrow> (size_t \<rightharpoonup> 'a) \<Rightarrow> 's \<Rightarrow> error + ('a \<times> (size_t \<rightharpoonup> 'a) \<times> 's)" where
  "forward_loop S d update_func numSteps i x savedCps cps =
     (if i < numSteps then
        (case map_subscript d savedCps i of (v, saved1) \<Rightarrow>
           (case strategy_add S cps (i + 1) False of
              Inl e \<Rightarrow> Inl e
            | Inr (eraseStep, cps1) \<Rightarrow>
                forward_loop S d update_func numSteps (i + 1) (update_func i v)
                  (store_step eraseStep (i + 1) (update_func i v) saved1) cps1))
      else Inr (x, savedCps, cps))"
  by pat_completeness auto
termination
proof (relation "measure (\<lambda>(S, d, u, numSteps, i, x, m, c). unat numSteps - unat i)", goal_cases)
  case 1
  show ?case by simp
next
  case (2 S d update_func numSteps i)
  from 2(1) have lt: "unat i < unat numSteps"
    by (simp add: word_less_nat_alt)
  have "unat numSteps < 2 ^ 64"
    using unsigned_less [of numSteps] by simp
  with lt have "unat (i + 1) = unat i + 1"
    by (simp add: unat_word_ariths)
  with lt show ?case by simp
qed

declare forward_loop.simps [simp del]

text \<open>
  The recomputation loop \<^verbatim>\<open>while (cps.last_checkpoint_step() < i)\<close>. Nothing in the
  driver bounds its iterations, so it is a partial function: \<open>None\<close> is a loop that does
  not return. (The variable \<open>x\<close> it assigns is not read again after the forward sweep.)
\<close>

partial_function (option) restore_loop ::
  "'s CheckpointStrategy \<Rightarrow> 'a \<Rightarrow> (size_t \<Rightarrow> 'a \<Rightarrow> 'a) \<Rightarrow> size_t \<Rightarrow>
     (size_t \<rightharpoonup> 'a) \<Rightarrow> 's \<Rightarrow> (error + ((size_t \<rightharpoonup> 'a) \<times> 's)) option" where
  "restore_loop S d update_func i savedCps cps =
     (case strategy_last S cps of
        Inl e \<Rightarrow> Some (Inl e)
      | Inr lastCp \<Rightarrow>
          if lastCp < i then
            (case map_subscript d savedCps lastCp of (v, saved1) \<Rightarrow>
               (case strategy_add S cps (lastCp + 1) False of
                  Inl e \<Rightarrow> Some (Inl e)
                | Inr (eraseStep, cps1) \<Rightarrow>
                    restore_loop S d update_func i
                      (store_step eraseStep (lastCp + 1) (update_func lastCp v) saved1)
                      (strategy_record S cps1)))
          else Some (Inr (savedCps, cps)))"

text \<open>
  The reverse sweep \<^verbatim>\<open>for (size_t i = numSteps; i + 1 > 0; --i)\<close>, with the invocations
  of \<^verbatim>\<open>reverse_callback\<close> collected in order in \<open>calls\<close>. The condition and the
  decrement are \<^verbatim>\<open>size_t\<close> arithmetic: after \<open>i = 0\<close> the counter wraps to
  \<open>SIZE_MAX\<close> and \<open>i + 1\<close> is 0.
\<close>

function reverse_loop ::
  "'s CheckpointStrategy \<Rightarrow> 'a \<Rightarrow> (size_t \<Rightarrow> 'a \<Rightarrow> 'a) \<Rightarrow> size_t \<Rightarrow>
     (size_t \<rightharpoonup> 'a) \<Rightarrow> 's \<Rightarrow> (size_t \<times> 'a) list \<Rightarrow> (error + (size_t \<times> 'a) list) option" where
  "reverse_loop S d update_func i savedCps cps calls =
     (if i + 1 > 0 then
        (case restore_loop S d update_func i savedCps cps of
           None \<Rightarrow> None
         | Some (Inl e) \<Rightarrow> Some (Inl e)
         | Some (Inr (saved1, cps1)) \<Rightarrow>
             (case map_subscript d saved1 i of (v, saved2) \<Rightarrow>
                reverse_loop S d update_func (i - 1) (saved2(i := None))
                  (snd (strategy_erase S cps1 i)) (calls @ [(i, v)])))
      else Some (Inr calls))"
  by pat_completeness auto
termination
proof (relation "measure (\<lambda>(S, d, u, i, m, c, l). unat (i + 1))", goal_cases)
  case 1
  show ?case by simp
next
  case (2 S d update_func i)
  from 2(1) have "1 + i \<noteq> 0"
    by (simp add: add.commute)
  then have "unat (1 + i) = Suc (unat i)"
    by (rule unatSuc)
  then show ?case
    by (simp add: add.commute)
qed

declare reverse_loop.simps [simp del]

text \<open>
  The driver, called with a strategy. It returns \<open>None\<close> when a recomputation loop does
  not end, \<open>Inl\<close> when an assertion of the strategy fails, and otherwise the returned
  value \<open>xf\<close> with the list of the callback's invocations.
\<close>

definition advance_and_reverse_steps ::
  "'a state_type \<Rightarrow> 's CheckpointStrategy \<Rightarrow> size_t \<Rightarrow> size_t \<Rightarrow> 'a \<Rightarrow>
     (size_t \<Rightarrow> 'a \<Rightarrow> 'a) \<Rightarrow> 's \<Rightarrow> (error + ('a \<times> (size_t \<times> 'a) list)) option" where
  "advance_and_reverse_steps T S numSteps storageSize x update_func strategy =
     (case strategy_add S strategy 0 True of
        Inl e \<Rightarrow> Some (Inl e)
      | Inr (eraseStep0, cps0) \<Rightarrow>
          (case forward_loop S (value_init T) update_func numSteps 0 x (Map.empty(0 \<mapsto> x)) cps0 of
             Inl e \<Rightarrow> Some (Inl e)
           | Inr (x1, saved1, cps1) \<Rightarrow>
               (case reverse_loop S (value_init T) update_func numSteps saved1 cps1 [] of
                  None \<Rightarrow> None
                | Some (Inl e) \<Rightarrow> Some (Inl e)
                | Some (Inr calls) \<Rightarrow> Some (Inr (via_double T x1, calls)))))"

subsection \<open>The specification of the driver\<close>

text \<open>
  The naive forward iteration of the spec, \<open>x\<^sub>0 = x\<close> and \<open>x\<^sub>k\<^sub>+\<^sub>1 = update(k, x\<^sub>k)\<close>, and the
  invocations \<open>(n, x\<^sub>n), \<dots>, (1, x\<^sub>1), (0, x\<^sub>0)\<close> of the reverse callback.
\<close>

primrec naive_forward_state :: "(size_t \<Rightarrow> 'a \<Rightarrow> 'a) \<Rightarrow> 'a \<Rightarrow> nat \<Rightarrow> 'a" where
  "naive_forward_state update_func x0 0 = x0"
| "naive_forward_state update_func x0 (Suc k) =
     update_func (of_nat k) (naive_forward_state update_func x0 k)"

definition reverse_calls :: "(size_t \<Rightarrow> 'a \<Rightarrow> 'a) \<Rightarrow> 'a \<Rightarrow> nat \<Rightarrow> (size_t \<times> 'a) list" where
  "reverse_calls update_func x0 n =
     map (\<lambda>k. (of_nat k, naive_forward_state update_func x0 k)) (rev [0..<Suc n])"

text \<open>
  Modelled from the spec: the contract of \<^verbatim>\<open>CheckpointStrategy\<close> (section 4.1), for a
  strategy on which step 0 is registered as persistent, with \<open>I\<close> the states it can be in
  and \<open>stored\<close> the set of its stored steps. "\<^verbatim>\<open>last_checkpoint_step\<close>: greatest stored
  step"; "\<^verbatim>\<open>add\<close>: after return, step is stored; if a non-sentinel is returned, that step
  is no longer stored; at most one eviction per call", the returned step having been
  stored before, for a step beyond the stored ones; "persistent slots are immune to
  eviction"; "\<^verbatim>\<open>erase_step\<close>: removes the slot iff present and non-persistent";
  "\<^verbatim>\<open>record_recomputation\<close>: increments the recomputation counter".
\<close>

definition strategy_contract ::
  "'s CheckpointStrategy \<Rightarrow> ('s \<Rightarrow> bool) \<Rightarrow> ('s \<Rightarrow> size_t set) \<Rightarrow> bool" where
  "strategy_contract S I stored \<longleftrightarrow>
     (\<forall>s. I s \<longrightarrow> finite (stored s) \<and> 0 \<in> stored s \<and>
            strategy_last S s = Inr (Max (stored s))) \<and>
     (\<forall>s k. I s \<and> (\<forall>j\<in>stored s. j < k) \<and> valid_checkpoint_index k \<longrightarrow>
        (\<exists>r s'. strategy_add S s k False = Inr (r, s') \<and> I s' \<and>
                (if valid_checkpoint_index r
                 then r \<in> stored s \<and> stored s' = insert k (stored s - {r})
                 else stored s' = insert k (stored s)))) \<and>
     (\<forall>s k. I s \<and> k \<noteq> 0 \<longrightarrow>
        I (snd (strategy_erase S s k)) \<and>
        stored (snd (strategy_erase S s k)) = stored s - {k}) \<and>
     (\<forall>s. I s \<longrightarrow> I (strategy_record S s) \<and> stored (strategy_record S s) = stored s)"

text \<open>
  The invariant of both sweeps at index \<open>i\<close>: every stored step has its state saved,
  every saved state is the forward state of its step, and no stored step is beyond \<open>i\<close>.
\<close>

definition driver_inv ::
  "('s \<Rightarrow> bool) \<Rightarrow> ('s \<Rightarrow> size_t set) \<Rightarrow> (nat \<Rightarrow> 'a) \<Rightarrow> size_t \<Rightarrow>
     (size_t \<rightharpoonup> 'a) \<Rightarrow> 's \<Rightarrow> bool" where
  "driver_inv I stored X i savedCps cps \<longleftrightarrow>
     I cps \<and> stored cps \<subseteq> dom savedCps \<and>
     (\<forall>k v. savedCps k = Some v \<longrightarrow> v = X (unat k)) \<and>
     (\<forall>j\<in>stored cps. j \<le> i)"

text \<open>
  The states of an \<^verbatim>\<open>OnlineR2CheckpointStrategy\<close> constructed with \<open>c \<ge> 1\<close> inside the
  driver: the invariant of the strategy, steps strictly increasing, and step 0 the one
  persistent slot.
\<close>

definition r2_driver_state :: "nat \<Rightarrow> OnlineR2CheckpointStrategy \<Rightarrow> bool" where
  "r2_driver_state c st \<longleftrightarrow>
     strategy_inv c st \<and> 1 \<le> c \<and>
     sorted_wrt (<) (map step (slots st)) \<and>
     0 \<in> step ` set (slots st) \<and>
     (\<forall>x\<in>set (slots st). persistent x \<longleftrightarrow> step x = 0)"

definition stored_steps :: "OnlineR2CheckpointStrategy \<Rightarrow> size_t set" where
  "stored_steps st = step ` set (slots st)"


subsection \<open>Two instances of the state type\<close>

text \<open>
  \<open>T = int\<close> (32 bits): every value is a \<^verbatim>\<open>double\<close>, the conversions change nothing.
  \<open>T = long\<close> (64 bits, values from \<open>- 2 ^ 63\<close> to \<open>2 ^ 63 - 1\<close>): the conversion to
  \<^verbatim>\<open>double\<close> keeps 53 significant bits and rounds to the nearest representable value,
  ties to even (IEEE 754 binary64, the default rounding mode); \<open>excess_bits a\<close> is the
  number of low bits of the magnitude \<open>a\<close> that do not fit. The conversion back is
  exact when the \<^verbatim>\<open>double\<close> is in the range of \<^verbatim>\<open>long\<close>. It is not for the values
  from \<open>2 ^ 63 - 512\<close> on, which round to \<open>2 ^ 63\<close>: there the conversion is undefined in
  C++, and the model takes what x86-64 produces, \<^verbatim>\<open>LONG_MIN\<close>.
\<close>

function excess_bits :: "nat \<Rightarrow> nat" where
  "excess_bits a = (if a < 2 ^ 53 then 0 else Suc (excess_bits (a div 2)))"
  by pat_completeness auto
termination
  by (relation "measure id") auto

declare excess_bits.simps [simp del]

definition round_to_double :: "int \<Rightarrow> int" where
  "round_to_double n =
     (let a = \<bar>n\<bar>;
          e = excess_bits (nat a);
          q = a div 2 ^ e;
          r = a mod 2 ^ e;
          q' = (if 2 * r > 2 ^ e \<or> (2 * r = 2 ^ e \<and> odd q) then q + 1 else q)
      in sgn n * (q' * 2 ^ e))"

definition T_int32 :: "int state_type" where
  "T_int32 = \<lparr>value_init = 0, via_double = (\<lambda>x. x)\<rparr>"

definition long_via_double :: "int \<Rightarrow> int" where
  "long_via_double n =
     (let v = round_to_double n
      in if - (2 ^ 63) \<le> v \<and> v < 2 ^ 63 then v else - (2 ^ 63))"

definition T_int64 :: "int state_type" where
  "T_int64 = \<lparr>value_init = 0, via_double = long_via_double\<rparr>"



section \<open>Lists: insertion and erasure at a position\<close>

lemma length_insert_at [simp]: "length (insert_at n x xs) = Suc (length xs)"
  by (simp add: insert_at_def)

lemma set_insert_at [simp]: "set (insert_at n x xs) = insert x (set xs)"
proof -
  have "set (take n xs) \<union> set (drop n xs) = set xs"
    by (metis append_take_drop_id set_append)
  then show ?thesis by (auto simp: insert_at_def)
qed

lemma length_erase_at [simp]: "n < length xs \<Longrightarrow> length (erase_at n xs) = length xs - 1"
  by (auto simp: erase_at_def)

lemma set_erase_at_subset: "set (erase_at n xs) \<subseteq> set xs"
  by (auto simp: erase_at_def dest: in_set_takeD in_set_dropD)

lemma erase_at_Cons_Suc [simp]: "erase_at (Suc n) (x # xs) = x # erase_at n xs"
  by (simp add: erase_at_def)

lemma erase_at_0 [simp]: "erase_at 0 (x # xs) = xs"
  by (simp add: erase_at_def)

lemma set_erase_at_distinct:
  "distinct xs \<Longrightarrow> n < length xs \<Longrightarrow> set (erase_at n xs) = set xs - {xs ! n}"
proof (induction xs arbitrary: n)
  case Nil
  then show ?case by simp
next
  case (Cons x xs)
  show ?case
  proof (cases n)
    case 0
    with Cons.prems show ?thesis by auto
  next
    case (Suc m)
    with Cons show ?thesis by auto
  qed
qed

lemma map_erase_at: "map f (erase_at n xs) = erase_at n (map f xs)"
  by (simp add: erase_at_def take_map drop_map)

lemma filter_erase_at:
  "n < length xs \<Longrightarrow> \<not> P (xs ! n) \<Longrightarrow> filter P (erase_at n xs) = filter P xs"
proof -
  assume n: "n < length xs" and np: "\<not> P (xs ! n)"
  have "xs = take n xs @ xs ! n # drop (Suc n) xs"
    using n by (simp add: id_take_nth_drop)
  then have "filter P xs = filter P (take n xs) @ filter P (drop (Suc n) xs)"
    using np by (metis filter.simps(2) filter_append)
  then show ?thesis by (simp add: erase_at_def)
qed

lemma filter_insert_at:
  "filter P (insert_at n x xs) = (if P x then insert_at (length (filter P (take n xs))) x (filter P xs) else filter P xs)"
proof -
  have e: "filter P xs = filter P (take n xs) @ filter P (drop n xs)"
    by (metis append_take_drop_id filter_append)
  show ?thesis by (simp add: insert_at_def e)
qed

lemma contains_step_loop_iff: "contains_step_loop sl s \<longleftrightarrow> s \<in> step ` set sl"
  by (induction sl) auto

lemma contains_step_iff: "contains_step st s \<longleftrightarrow> s \<in> step ` set (slots st)"
  by (simp add: contains_step_def contains_step_loop_iff)

lemma set_insert_sorted [simp]: "set (insert_sorted x sl) = insert x (set sl)"
  by (simp add: insert_sorted_def)

lemma length_insert_sorted [simp]: "length (insert_sorted x sl) = Suc (length sl)"
  by (simp add: insert_sorted_def)

lemma lower_bound_le: "lower_bound sl st \<le> length sl"
  by (induction sl) auto

lemma lower_bound_before: "i < lower_bound sl st \<Longrightarrow> step (sl ! i) < st"
proof (induction sl arbitrary: i)
  case Nil
  then show ?case by simp
next
  case (Cons s sl)
  then show ?case by (cases i) (auto split: if_splits)
qed

lemma lower_bound_after:
  "sorted (map step sl) \<Longrightarrow> lower_bound sl st \<le> i \<Longrightarrow> i < length sl \<Longrightarrow> st \<le> step (sl ! i)"
proof (induction sl arbitrary: i)
  case Nil
  then show ?case by simp
next
  case (Cons s sl)
  show ?case
  proof (cases "step s < st")
    case True
    with Cons.prems obtain j where j: "i = Suc j" by (cases i) auto
    with Cons True show ?thesis by auto
  next
    case False
    then have "st \<le> step s" by simp
    moreover have "step s \<le> step ((s # sl) ! i)"
      using Cons.prems(1,3) by (cases i) auto
    ultimately show ?thesis by simp
  qed
qed

lemma sorted_insert_sorted:
  "sorted (map step sl) \<Longrightarrow> sorted (map step (insert_sorted x sl))"
proof (induction sl)
  case Nil
  then show ?case by (simp add: insert_sorted_def insert_at_def)
next
  case (Cons s sl)
  show ?case
  proof (cases "step s < step x")
    case True
    have "insert_sorted x (s # sl) = s # insert_sorted x sl"
      using True by (simp add: insert_sorted_def insert_at_def)
    with Cons True show ?thesis by auto
  next
    case False
    have "insert_sorted x (s # sl) = x # s # sl"
      using False by (simp add: insert_sorted_def insert_at_def)
    with Cons.prems False show ?thesis by auto
  qed
qed

lemma strict_sorted_insert_sorted:
  "sorted_wrt (<) (map step sl) \<Longrightarrow> step x \<notin> step ` set sl \<Longrightarrow>
     sorted_wrt (<) (map step (insert_sorted x sl))"
proof (induction sl)
  case Nil
  then show ?case by (simp add: insert_sorted_def insert_at_def)
next
  case (Cons s sl)
  show ?case
  proof (cases "step s < step x")
    case True
    have "insert_sorted x (s # sl) = s # insert_sorted x sl"
      using True by (simp add: insert_sorted_def insert_at_def)
    with Cons True show ?thesis by auto
  next
    case False
    have "insert_sorted x (s # sl) = x # s # sl"
      using False by (simp add: insert_sorted_def insert_at_def)
    with Cons.prems False show ?thesis by force
  qed
qed

lemma insert_sorted_greatest:
  "\<forall>s\<in>set sl. step s < step x \<Longrightarrow> insert_sorted x sl = sl @ [x]"
proof (induction sl)
  case Nil
  then show ?case by (simp add: insert_sorted_def insert_at_def)
next
  case (Cons s sl)
  then have "insert_sorted x sl = sl @ [x]" by simp
  moreover have "insert_sorted x (s # sl) = s # insert_sorted x sl"
    using Cons.prems by (simp add: insert_sorted_def insert_at_def)
  ultimately show ?case by simp
qed

lemma sorted_erase_at:
  assumes "sorted_wrt R xs"
  shows "sorted_wrt R (erase_at n xs)"
proof -
  have "sorted_wrt R (take n xs @ drop n xs)"
    using assms by simp
  then have cross: "\<forall>x\<in>set (take n xs). \<forall>y\<in>set (drop n xs). R x y"
    unfolding sorted_wrt_append by blast
  have "set (drop (Suc n) xs) \<subseteq> set (drop n xs)"
    by (rule set_drop_subset_set_drop) simp
  with cross have "\<forall>x\<in>set (take n xs). \<forall>y\<in>set (drop (Suc n) xs). R x y"
    by blast
  with assms show ?thesis
    by (simp add: erase_at_def sorted_wrt_append sorted_wrt_take sorted_wrt_drop)
qed

lemma slot_eq_iff: "(s :: Slot) = \<lparr>step = a, persistent = b\<rparr> \<longleftrightarrow> step s = a \<and> persistent s = b"
  by (cases s) auto

lemma erase_step_loop_remove1:
  "erase_step_loop sl s =
     (\<lparr>step = s, persistent = False\<rparr> \<in> set sl, remove1 \<lparr>step = s, persistent = False\<rparr> sl)"
  by (induction sl) (auto simp: slot_eq_iff)

lemma remove1_first:
  "x \<in> set xs \<Longrightarrow>
     \<exists>i<length xs. xs ! i = x \<and> (\<forall>j<i. xs ! j \<noteq> x) \<and> remove1 x xs = erase_at i xs"
proof (induction xs)
  case Nil
  then show ?case by simp
next
  case (Cons y ys)
  show ?case
  proof (cases "x = y")
    case True
    then have "0 < length (y # ys) \<and> (y # ys) ! 0 = x \<and> (\<forall>j<0. (y # ys) ! j \<noteq> x) \<and>
               remove1 x (y # ys) = erase_at 0 (y # ys)" by simp
    then show ?thesis by blast
  next
    case False
    with Cons obtain i where i: "i < length ys" "ys ! i = x" "\<forall>j<i. ys ! j \<noteq> x"
      "remove1 x ys = erase_at i ys" by auto
    have "\<forall>j<Suc i. (y # ys) ! j \<noteq> x"
    proof (intro allI impI)
      fix j assume "j < Suc i"
      then show "(y # ys) ! j \<noteq> x"
        using False i(3) by (cases j) auto
    qed
    with False i have "Suc i < length (y # ys) \<and> (y # ys) ! Suc i = x \<and>
        (\<forall>j<Suc i. (y # ys) ! j \<noteq> x) \<and> remove1 x (y # ys) = erase_at (Suc i) (y # ys)"
      by simp
    then show ?thesis by blast
  qed
qed

lemma filter_remove1_other: "\<not> P x \<Longrightarrow> filter P (remove1 x xs) = filter P xs"
  by (induction xs) auto

section \<open>The eviction candidate\<close>

lemma word_less_max_iff: "(x :: size_t) < - 1 \<longleftrightarrow> x \<noteq> - 1"
  by (metis word_order.not_eq_extremum)

lemma word_not_less_max: "\<not> (x :: size_t) < - 1 \<longleftrightarrow> x = - 1"
  by (simp add: word_less_max_iff)

lemma best_so_far_step:
  assumes "best_so_far sl ns k best" and "k < length sl"
  shows "best_so_far sl ns (Suc k) (eviction_step sl ns k best)"
proof (cases "persistent (sl ! k)")
  case True
  then have e: "eviction_step sl ns k best = best" by (simp add: eviction_step_def)
  from assms(1) True show ?thesis
    unfolding e best_so_far_def by (auto simp: less_Suc_eq)
next
  case False
  show ?thesis
  proof (cases "mergedGap sl ns k < snd best")
    case True
    then have e: "eviction_step sl ns k best = (k, mergedGap sl ns k)"
      using False by (simp add: eviction_step_def)
    have ne: "mergedGap sl ns k \<noteq> - 1"
      using True by (metis word_order.extremum_strict)
    from assms(1) have old: "\<forall>j<k. \<not> persistent (sl ! j) \<longrightarrow> mergedGap sl ns k < mergedGap sl ns j"
      unfolding best_so_far_def using True by (auto simp: word_less_max_iff)
    show ?thesis unfolding e best_so_far_def using False ne old
      by (auto simp: less_Suc_eq)
  next
    case nl: False
    then have e: "eviction_step sl ns k best = best"
      using False by (simp add: eviction_step_def)
    from assms nl show ?thesis
      unfolding e best_so_far_def by (auto simp: less_Suc_eq word_not_less_max)
  qed
qed

lemma best_so_far_fold:
  "k \<le> length sl \<Longrightarrow>
     best_so_far sl ns k (fold (eviction_step sl ns) [0..<k] (length sl, - 1))"
proof (induction k)
  case 0
  then show ?case by (simp add: best_so_far_def)
next
  case (Suc k)
  then show ?case by (simp add: best_so_far_step)
qed

lemma find_eviction_candidate_none:
  "find_eviction_candidate st ns = length (slots st) \<longleftrightarrow>
     (\<forall>j<length (slots st). \<not> persistent (slots st ! j) \<longrightarrow> mergedGap (slots st) ns j = - 1)"
  using best_so_far_fold [of "length (slots st)" "slots st" ns]
  unfolding best_so_far_def find_eviction_candidate_def by auto

lemma find_eviction_candidate_le:
  "find_eviction_candidate st ns \<le> length (slots st)"
  using best_so_far_fold [of "length (slots st)" "slots st" ns]
  unfolding best_so_far_def find_eviction_candidate_def by auto

lemma find_eviction_candidate_some:
  assumes "find_eviction_candidate st ns < length (slots st)"
  shows "\<not> persistent (slots st ! find_eviction_candidate st ns)"
    and "mergedGap (slots st) ns (find_eviction_candidate st ns) \<noteq> - 1"
    and "\<forall>j<length (slots st). \<not> persistent (slots st ! j) \<longrightarrow>
           mergedGap (slots st) ns (find_eviction_candidate st ns) \<le> mergedGap (slots st) ns j"
    and "\<forall>j<find_eviction_candidate st ns. \<not> persistent (slots st ! j) \<longrightarrow>
           mergedGap (slots st) ns (find_eviction_candidate st ns) < mergedGap (slots st) ns j"
  using best_so_far_fold [of "length (slots st)" "slots st" ns] assms
  unfolding best_so_far_def find_eviction_candidate_def by auto

section \<open>The branches of add\_checkpoint\_and\_get\_index\_to\_remove\<close>

lemma find_eviction_candidate_slots:
  "slots st1 = slots st \<Longrightarrow> find_eviction_candidate st1 ns = find_eviction_candidate st ns"
  by (simp add: find_eviction_candidate_def)

lemma add_persistent_fail:
  "\<not> length (slots st) < unat (maxNumSlots st + 1) \<Longrightarrow>
     add_checkpoint_and_get_index_to_remove st stp True = Inl AssertionFailure"
  by (simp add: add_checkpoint_and_get_index_to_remove_def Let_def)

lemma add_persistent_ok:
  "length (slots st) < unat (maxNumSlots st + 1) \<Longrightarrow>
     add_checkpoint_and_get_index_to_remove st stp True =
       Inr (invalidCheckpointIndex,
            st\<lparr>maxNumSlots := maxNumSlots st + 1,
               slots := insert_sorted \<lparr>step = stp, persistent = True\<rparr> (slots st),
               metrics := count_add invalidCheckpointIndex (metrics st)\<rparr>)"
  by (simp add: add_checkpoint_and_get_index_to_remove_def Let_def)

lemma add_below_capacity:
  "length (slots st) < unat (maxNumSlots st) \<Longrightarrow>
     add_checkpoint_and_get_index_to_remove st stp False =
       Inr (invalidCheckpointIndex,
            st\<lparr>slots := insert_sorted \<lparr>step = stp, persistent = False\<rparr> (slots st),
               metrics := count_add invalidCheckpointIndex (metrics st)\<rparr>)"
  by (simp add: add_checkpoint_and_get_index_to_remove_def Let_def)

lemma add_evict:
  "\<not> length (slots st) < unat (maxNumSlots st) \<Longrightarrow>
   find_eviction_candidate st stp < length (slots st) \<Longrightarrow>
     add_checkpoint_and_get_index_to_remove st stp False =
       Inr (step (slots st ! find_eviction_candidate st stp),
            st\<lparr>slots := insert_sorted \<lparr>step = stp, persistent = False\<rparr>
                           (erase_at (find_eviction_candidate st stp) (slots st)),
               metrics := count_add (step (slots st ! find_eviction_candidate st stp))
                            (metrics st)\<rparr>)"
  by (simp add: add_checkpoint_and_get_index_to_remove_def Let_def)

lemma add_drop:
  "\<not> length (slots st) < unat (maxNumSlots st) \<Longrightarrow>
   \<not> find_eviction_candidate st stp < length (slots st) \<Longrightarrow>
     add_checkpoint_and_get_index_to_remove st stp False =
       Inr (invalidCheckpointIndex,
            st\<lparr>metrics := count_add invalidCheckpointIndex (metrics st)\<rparr>)"
  by (simp add: add_checkpoint_and_get_index_to_remove_def Let_def)

lemma add_result_metrics:
  assumes "add_checkpoint_and_get_index_to_remove st stp pers = Inr (r, st')"
  shows "metrics st' = count_add r (metrics st)"
proof (cases pers)
  case True
  show ?thesis
  proof (cases "length (slots st) < unat (maxNumSlots st + 1)")
    case t: True
    from add_persistent_ok [OF t, of stp] assms True show ?thesis by auto
  next
    case False
    from add_persistent_fail [OF False, of stp] assms True show ?thesis by simp
  qed
next
  case np: False
  show ?thesis
  proof (cases "length (slots st) < unat (maxNumSlots st)")
    case True
    from add_below_capacity [OF True, of stp] assms np show ?thesis by auto
  next
    case False
    show ?thesis
    proof (cases "find_eviction_candidate st stp < length (slots st)")
      case True
      from add_evict [OF False True] assms np show ?thesis by auto
    next
      case nf: False
      from add_drop [OF False nf] assms np show ?thesis by auto
    qed
  qed
qed

lemma add_fails_iff:
  "add_checkpoint_and_get_index_to_remove st stp pers = Inl e \<longleftrightarrow>
     pers \<and> \<not> length (slots st) < unat (maxNumSlots st + 1)"
proof (cases pers)
  case True
  show ?thesis
  proof (cases "length (slots st) < unat (maxNumSlots st + 1)")
    case t: True
    from add_persistent_ok [OF t, of stp] True t show ?thesis by simp
  next
    case False
    from add_persistent_fail [OF False, of stp] True False show ?thesis by (cases e) simp
  qed
next
  case np: False
  show ?thesis
  proof (cases "length (slots st) < unat (maxNumSlots st)")
    case True
    from add_below_capacity [OF True, of stp] np True show ?thesis by simp
  next
    case False
    show ?thesis
    proof (cases "find_eviction_candidate st stp < length (slots st)")
      case True
      from add_evict [OF False True] np show ?thesis by simp
    next
      case nf: False
      from add_drop [OF False nf] np show ?thesis by simp
    qed
  qed
qed

lemma add_result_maxNumSlots:
  assumes "add_checkpoint_and_get_index_to_remove st stp pers = Inr (r, st')"
  shows "maxNumSlots st' = (if pers then maxNumSlots st + 1 else maxNumSlots st)"
proof (cases pers)
  case True
  show ?thesis
  proof (cases "length (slots st) < unat (maxNumSlots st + 1)")
    case t: True
    from add_persistent_ok [OF t, of stp] assms True show ?thesis by auto
  next
    case False
    from add_persistent_fail [OF False, of stp] assms True show ?thesis by simp
  qed
next
  case np: False
  show ?thesis
  proof (cases "length (slots st) < unat (maxNumSlots st)")
    case True
    from add_below_capacity [OF True, of stp] assms np show ?thesis by auto
  next
    case False
    show ?thesis
    proof (cases "find_eviction_candidate st stp < length (slots st)")
      case True
      from add_evict [OF False True] assms np show ?thesis by auto
    next
      case nf: False
      from add_drop [OF False nf] assms np show ?thesis by auto
    qed
  qed
qed

text \<open>The three ways in which a returning add changes the slot vector.\<close>

lemma add_result_slots:
  assumes "add_checkpoint_and_get_index_to_remove st stp pers = Inr (r, st')"
  shows "(length (slots st) < unat (maxNumSlots st') \<and> r = invalidCheckpointIndex \<and>
            slots st' = insert_sorted \<lparr>step = stp, persistent = pers\<rparr> (slots st)) \<or>
         (\<not> length (slots st) < unat (maxNumSlots st') \<and> \<not> pers \<and>
            find_eviction_candidate st stp < length (slots st) \<and>
            r = step (slots st ! find_eviction_candidate st stp) \<and>
            slots st' = insert_sorted \<lparr>step = stp, persistent = pers\<rparr>
                          (erase_at (find_eviction_candidate st stp) (slots st))) \<or>
         (\<not> length (slots st) < unat (maxNumSlots st') \<and> \<not> pers \<and>
            \<not> find_eviction_candidate st stp < length (slots st) \<and>
            r = invalidCheckpointIndex \<and> slots st' = slots st)"
proof (cases pers)
  case True
  show ?thesis
  proof (cases "length (slots st) < unat (maxNumSlots st + 1)")
    case t: True
    from add_persistent_ok [OF t, of stp] assms True t show ?thesis by auto
  next
    case False
    from add_persistent_fail [OF False, of stp] assms True show ?thesis by simp
  qed
next
  case np: False
  show ?thesis
  proof (cases "length (slots st) < unat (maxNumSlots st)")
    case True
    from add_below_capacity [OF True, of stp] assms np True show ?thesis by auto
  next
    case False
    show ?thesis
    proof (cases "find_eviction_candidate st stp < length (slots st)")
      case True
      from add_evict [OF False True] assms np False True show ?thesis by auto
    next
      case nf: False
      from add_drop [OF False nf] assms np False nf show ?thesis by auto
    qed
  qed
qed

section \<open>Metrics of an add\<close>

text \<open>
  C10: every call of \<^verbatim>\<open>add_checkpoint_and_get_index_to_remove\<close> that returns increments
  \<open>stores\<close> by exactly one, in every branch (also when the new slot is dropped), and
  increments \<open>evictions\<close> by one if and only if the returned value satisfies
  \<^verbatim>\<open>valid_checkpoint_index\<close>; \<open>recomputations\<close> is left alone. The counters are
  \<^verbatim>\<open>size_t\<close>, so the increments are modulo \<open>2 ^ 64\<close>. (A call that does not return has
  failed its assertion, see \<open>add_fails_iff\<close>.)
\<close>

theorem add_metrics:
  "add_checkpoint_and_get_index_to_remove st stp pers = Inr (r, st') \<Longrightarrow>
     stores (metrics st') = stores (metrics st) + 1 \<and>
     evictions (metrics st') =
       (if valid_checkpoint_index r then evictions (metrics st) + 1 else evictions (metrics st)) \<and>
     recomputations (metrics st') = recomputations (metrics st)"
  by (drule add_result_metrics) (simp add: count_add_def Let_def)

lemmas eval_add = add_checkpoint_and_get_index_to_remove_def new_OnlineR2CheckpointStrategy_def
  find_eviction_candidate_def count_add_def valid_checkpoint_index_def Let_def
  insert_sorted_def insert_at_def erase_at_def eviction_step_def mergedGap_def leftStep_def rightStep_def
  invalidCheckpointIndex_def

text \<open>The dropping branch: a strategy of capacity 0 receives a non-persistent add.\<close>

theorem add_metrics_witness:
  "add_checkpoint_and_get_index_to_remove (new_OnlineR2CheckpointStrategy 0) 1 False =
     Inr (invalidCheckpointIndex, \<lparr>maxNumSlots = 0, slots = [],
            metrics = \<lparr>stores = 1, evictions = 0, recomputations = 0\<rparr>\<rparr>) \<and>
   stores (metrics \<lparr>maxNumSlots = 0, slots = [],
            metrics = \<lparr>stores = 1, evictions = 0, recomputations = 0\<rparr>\<rparr>) =
     stores (metrics (new_OnlineR2CheckpointStrategy 0)) + 1"
proof -
  have h: "add_checkpoint_and_get_index_to_remove (new_OnlineR2CheckpointStrategy 0) 1 False =
     Inr (invalidCheckpointIndex, \<lparr>maxNumSlots = 0, slots = [],
            metrics = \<lparr>stores = 1, evictions = 0, recomputations = 0\<rparr>\<rparr>)"
    by (simp add: eval_add)
  from add_metrics [OF h] h show ?thesis by simp
qed

section \<open>Adding a step that is already stored\<close>

text \<open>
  The function has no check for a step that is already stored: on a fresh strategy of
  capacity 2, \<^verbatim>\<open>add(5, false)\<close> twice returns the sentinel twice and leaves two slots
  with step 5.
\<close>

theorem duplicate_add_counterexample:
  "add_checkpoint_and_get_index_to_remove (new_OnlineR2CheckpointStrategy 2) 5 False =
     Inr (invalidCheckpointIndex,
          \<lparr>maxNumSlots = 2, slots = [\<lparr>step = 5, persistent = False\<rparr>],
           metrics = \<lparr>stores = 1, evictions = 0, recomputations = 0\<rparr>\<rparr>) \<and>
   add_checkpoint_and_get_index_to_remove
       \<lparr>maxNumSlots = 2, slots = [\<lparr>step = 5, persistent = False\<rparr>],
        metrics = \<lparr>stores = 1, evictions = 0, recomputations = 0\<rparr>\<rparr> 5 False =
     Inr (invalidCheckpointIndex,
          \<lparr>maxNumSlots = 2,
           slots = [\<lparr>step = 5, persistent = False\<rparr>, \<lparr>step = 5, persistent = False\<rparr>],
           metrics = \<lparr>stores = 2, evictions = 0, recomputations = 0\<rparr>\<rparr>)"
  by (simp add: eval_add)

text \<open>
  C3 (amended): when a slot with step \<open>s\<close> is already stored, \<^verbatim>\<open>add(s, p)\<close> does not
  fail on that account and does change the state. It is processed like any other add:
  its only failure is the assertion of a persistent add, every returning call increments
  \<open>stores\<close> (so the state differs from the one before), and below capacity a
  non-persistent add inserts a second slot with step \<open>s\<close> and returns the sentinel.
\<close>

theorem duplicate_add_accepted:
  assumes "contains_step st s"
  shows "(add_checkpoint_and_get_index_to_remove st s p = Inl AssertionFailure \<longleftrightarrow>
            p \<and> \<not> length (slots st) < unat (maxNumSlots st + 1)) \<and>
         (\<forall>r st'. add_checkpoint_and_get_index_to_remove st s p = Inr (r, st') \<longrightarrow>
            stores (metrics st') = stores (metrics st) + 1 \<and> st' \<noteq> st) \<and>
         (length (slots st) < unat (maxNumSlots st) \<longrightarrow>
            add_checkpoint_and_get_index_to_remove st s False =
              Inr (invalidCheckpointIndex,
                   st\<lparr>slots := insert_sorted \<lparr>step = s, persistent = False\<rparr> (slots st),
                      metrics := (metrics st)\<lparr>stores := stores (metrics st) + 1\<rparr>\<rparr>))"
proof (intro conjI allI impI)
  show "add_checkpoint_and_get_index_to_remove st s p = Inl AssertionFailure \<longleftrightarrow>
            p \<and> \<not> length (slots st) < unat (maxNumSlots st + 1)"
    by (rule add_fails_iff)
next
  fix r st'
  assume a: "add_checkpoint_and_get_index_to_remove st s p = Inr (r, st')"
  from add_result_metrics [OF a]
  show "stores (metrics st') = stores (metrics st) + 1"
    by (simp add: count_add_def Let_def)
  then have "stores (metrics st') \<noteq> stores (metrics st)" by simp
  then show "st' \<noteq> st" by auto
next
  assume "length (slots st) < unat (maxNumSlots st)"
  then show "add_checkpoint_and_get_index_to_remove st s False =
              Inr (invalidCheckpointIndex,
                   st\<lparr>slots := insert_sorted \<lparr>step = s, persistent = False\<rparr> (slots st),
                      metrics := (metrics st)\<lparr>stores := stores (metrics st) + 1\<rparr>\<rparr>)"
    by (simp add: add_checkpoint_and_get_index_to_remove_def Let_def count_add_def
                  valid_checkpoint_index_def)
qed

theorem duplicate_add_accepted_witness:
  "contains_step \<lparr>maxNumSlots = 2, slots = [\<lparr>step = 5, persistent = False\<rparr>],
        metrics = \<lparr>stores = 1, evictions = 0, recomputations = 0\<rparr>\<rparr> 5 \<and>
   add_checkpoint_and_get_index_to_remove
       \<lparr>maxNumSlots = 2, slots = [\<lparr>step = 5, persistent = False\<rparr>],
        metrics = \<lparr>stores = 1, evictions = 0, recomputations = 0\<rparr>\<rparr> 5 False =
     Inr (invalidCheckpointIndex,
          \<lparr>maxNumSlots = 2,
           slots = [\<lparr>step = 5, persistent = False\<rparr>, \<lparr>step = 5, persistent = False\<rparr>],
           metrics = \<lparr>stores = 2, evictions = 0, recomputations = 0\<rparr>\<rparr>)"
proof -
  have h: "contains_step \<lparr>maxNumSlots = 2, slots = [\<lparr>step = 5, persistent = False\<rparr>],
        metrics = \<lparr>stores = 1, evictions = 0, recomputations = 0\<rparr>\<rparr> 5"
    by (simp add: contains_step_def)
  from duplicate_add_accepted [OF h, of False] h show ?thesis
    by (simp add: insert_sorted_def insert_at_def)
qed

lemma step_erase_at_distinct:
  assumes "distinct (map step sl)" and "i < length sl"
  shows "step ` set (erase_at i sl) = step ` set sl - {step (sl ! i)}"
proof -
  have "set (erase_at i (map step sl)) = set (map step sl) - {map step sl ! i}"
    using assms by (intro set_erase_at_distinct) simp_all
  then show ?thesis
    using assms(2) by (simp add: map_erase_at [symmetric])
qed

section \<open>The evicted slot\<close>

text \<open>
  A merged gap computed by the loop is \<open>SIZE_MAX\<close> only out of step order or at the
  sentinel: with the vector sorted and \<open>newStep\<close> a valid step beyond every stored one,
  no position has the merged gap \<open>SIZE_MAX\<close>.
\<close>

lemma mergedGap_not_max:
  assumes srt: "sorted (map step sl)"
    and below: "\<forall>x\<in>set sl. step x < ns"
    and valid: "ns \<noteq> - 1"
    and j: "j < length sl"
  shows "mergedGap sl ns j \<noteq> - 1"
proof -
  have mono: "step (sl ! a) \<le> step (sl ! b)" if "a \<le> b" "b < length sl" for a b
    using sorted_nth_mono [OF srt, of a b] that by simp
  have l: "leftStep sl j \<le> step (sl ! j)"
    using mono [of "j - 1" j] j by (simp add: leftStep_def)
  have r: "step (sl ! j) \<le> rightStep sl ns j"
    using mono [of j "j + 1"] below j by (auto simp: rightStep_def intro: less_imp_le)
  have "rightStep sl ns j \<noteq> - 1"
  proof (cases "j + 1 < length sl")
    case True
    then have "step (sl ! (j + 1)) < ns" using below by simp
    then have "step (sl ! (j + 1)) \<noteq> - 1" by (metis word_order.extremum_strict)
    with True show ?thesis by (simp add: rightStep_def)
  next
    case False
    with valid show ?thesis by (simp add: rightStep_def)
  qed
  moreover have "rightStep sl ns j - leftStep sl j \<le> rightStep sl ns j"
    using l r by (intro word_sub_le) simp
  ultimately show ?thesis
    unfolding mergedGap_def by (metis word_order.extremum_uniqueI)
qed

text \<open>
  What the loop selects: when some non-persistent slot has a merged gap below the
  initial \<^verbatim>\<open>bestMergedGap\<close>, the candidate is the non-persistent slot at the lowest
  position with the least merged gap, and at capacity the add evicts it.
\<close>

lemma eviction_choice:
  assumes "size_slots st = unat (capacity st)"
    and "\<exists>j<length (slots st). \<not> persistent (slots st ! j) \<and> mergedGap (slots st) newStep j \<noteq> - 1"
  shows "\<exists>i<length (slots st).
           \<not> persistent (slots st ! i) \<and>
           (\<forall>j<length (slots st). \<not> persistent (slots st ! j) \<longrightarrow>
              mergedGap (slots st) newStep i \<le> mergedGap (slots st) newStep j) \<and>
           (\<forall>j<i. \<not> persistent (slots st ! j) \<longrightarrow>
              mergedGap (slots st) newStep i < mergedGap (slots st) newStep j) \<and>
           find_eviction_candidate st newStep = i \<and>
           add_checkpoint_and_get_index_to_remove st newStep False =
             Inr (step (slots st ! i),
                  st\<lparr>slots := insert_sorted \<lparr>step = newStep, persistent = False\<rparr>
                                 (erase_at i (slots st)),
                     metrics := count_add (step (slots st ! i)) (metrics st)\<rparr>)"
proof -
  let ?i = "find_eviction_candidate st newStep"
  from assms(2) have "?i \<noteq> length (slots st)"
    by (auto simp: find_eviction_candidate_none)
  with find_eviction_candidate_le [of st newStep] have lt: "?i < length (slots st)" by simp
  from assms(1) have full: "\<not> length (slots st) < unat (maxNumSlots st)"
    by (simp add: size_slots_def capacity_def)
  from lt find_eviction_candidate_some [OF lt] add_evict [OF full lt]
  show ?thesis by blast
qed

text \<open>A tie: slots 1 and 2 both have the merged gap 2, and the earlier one is evicted.\<close>

lemma eviction_tie_example:
  "find_eviction_candidate
      \<lparr>maxNumSlots = 3,
       slots = [\<lparr>step = 0, persistent = True\<rparr>, \<lparr>step = 1, persistent = False\<rparr>,
                \<lparr>step = 2, persistent = False\<rparr>],
       metrics = \<lparr>stores = 3, evictions = 0, recomputations = 0\<rparr>\<rparr> 3 = 1 \<and>
   add_checkpoint_and_get_index_to_remove
      \<lparr>maxNumSlots = 3,
       slots = [\<lparr>step = 0, persistent = True\<rparr>, \<lparr>step = 1, persistent = False\<rparr>,
                \<lparr>step = 2, persistent = False\<rparr>],
       metrics = \<lparr>stores = 3, evictions = 0, recomputations = 0\<rparr>\<rparr> 3 False =
     Inr (1, \<lparr>maxNumSlots = 3,
              slots = [\<lparr>step = 0, persistent = True\<rparr>, \<lparr>step = 2, persistent = False\<rparr>,
                       \<lparr>step = 3, persistent = False\<rparr>],
              metrics = \<lparr>stores = 4, evictions = 1, recomputations = 0\<rparr>\<rparr>)"
proof -
  let ?S = "\<lparr>maxNumSlots = 3,
       slots = [\<lparr>step = 0, persistent = True\<rparr>, \<lparr>step = 1, persistent = False\<rparr>,
                \<lparr>step = 2, persistent = False\<rparr>],
       metrics = \<lparr>stores = 3, evictions = 0, recomputations = 0\<rparr>\<rparr>"
  have h1: "size_slots ?S = unat (capacity ?S)"
    by (simp add: size_slots_def capacity_def)
  have "Suc 0 < length (slots ?S) \<and> \<not> persistent (slots ?S ! Suc 0) \<and>
        mergedGap (slots ?S) 3 (Suc 0) \<noteq> - 1"
    by (simp add: mergedGap_def leftStep_def rightStep_def)
  then have h2: "\<exists>j<length (slots ?S). \<not> persistent (slots ?S ! j) \<and>
                   mergedGap (slots ?S) 3 j \<noteq> - 1"
    by blast
  have c: "find_eviction_candidate ?S 3 = 1"
    by (simp add: find_eviction_candidate_def eviction_step_def mergedGap_def leftStep_def
                  rightStep_def upt_rec)
  from eviction_choice [OF h1 h2] obtain i where
    i: "find_eviction_candidate ?S 3 = i" and
    a: "add_checkpoint_and_get_index_to_remove ?S 3 False =
          Inr (step (slots ?S ! i),
               ?S\<lparr>slots := insert_sorted \<lparr>step = 3, persistent = False\<rparr> (erase_at i (slots ?S)),
                  metrics := count_add (step (slots ?S ! i)) (metrics ?S)\<rparr>)"
    by blast
  from i c have "i = 1" by simp
  with a c show ?thesis
    by (simp add: insert_sorted_def insert_at_def erase_at_def count_add_def
                  valid_checkpoint_index_def invalidCheckpointIndex_def)
qed

text \<open>
  For an add in step order (sorted vector, \<open>newStep\<close> valid and beyond every stored step)
  at capacity with a non-persistent slot stored, the evicted slot is the non-persistent
  slot at the lowest position that minimises the merged gap.
\<close>

lemma eviction_minimal_gap_in_order:
  assumes "size_slots st = unat (capacity st)"
    and "sorted (map step (slots st))"
    and "\<forall>x\<in>set (slots st). step x < newStep"
    and "valid_checkpoint_index newStep"
    and "\<exists>j<length (slots st). \<not> persistent (slots st ! j)"
  shows "find_eviction_candidate st newStep < length (slots st) \<and>
         \<not> persistent (slots st ! find_eviction_candidate st newStep) \<and>
         (\<forall>j<length (slots st). \<not> persistent (slots st ! j) \<longrightarrow>
            mergedGap (slots st) newStep (find_eviction_candidate st newStep)
              \<le> mergedGap (slots st) newStep j) \<and>
         (\<forall>j<find_eviction_candidate st newStep. \<not> persistent (slots st ! j) \<longrightarrow>
            mergedGap (slots st) newStep (find_eviction_candidate st newStep)
              < mergedGap (slots st) newStep j) \<and>
         add_checkpoint_and_get_index_to_remove st newStep False =
           Inr (step (slots st ! find_eviction_candidate st newStep),
                st\<lparr>slots := insert_sorted \<lparr>step = newStep, persistent = False\<rparr>
                               (erase_at (find_eviction_candidate st newStep) (slots st)),
                   metrics := count_add (step (slots st ! find_eviction_candidate st newStep))
                                (metrics st)\<rparr>)"
proof -
  let ?i = "find_eviction_candidate st newStep"
  from assms(5) obtain j where j: "j < length (slots st)" "\<not> persistent (slots st ! j)" by blast
  from assms(4) have "newStep \<noteq> - 1"
    by (simp add: valid_checkpoint_index_def invalidCheckpointIndex_def)
  from mergedGap_not_max [OF assms(2,3) this j(1)] j
  have "?i \<noteq> length (slots st)"
    by (auto simp: find_eviction_candidate_none)
  with find_eviction_candidate_le [of st newStep] have lt: "?i < length (slots st)" by simp
  from assms(1) have full: "\<not> length (slots st) < unat (maxNumSlots st)"
    by (simp add: size_slots_def capacity_def)
  from lt find_eviction_candidate_some [OF lt] add_evict [OF full lt]
  show ?thesis by blast
qed

text \<open>
  C4: at capacity, a non-persistent \<^verbatim>\<open>add(newStep)\<close> with a non-persistent slot stored
  evicts the non-persistent slot at the lowest position that minimises the merged gap
  \<open>right\<^sub>i - left\<^sub>i\<close>. The code fails to do so when that least gap is \<open>SIZE_MAX\<close>: the
  comparison \<^verbatim>\<open>mergedGap < bestMergedGap\<close> is strict and \<^verbatim>\<open>bestMergedGap\<close> starts at
  \<open>SIZE_MAX\<close>. On the slots 5 (persistent) and 7 at capacity 2, \<^verbatim>\<open>add(4, false)\<close>
  computes the merged gap \<open>4 - 5 = SIZE_MAX\<close> for slot 7, finds no candidate, evicts
  nothing and drops step 4; on the same state \<^verbatim>\<open>add(3, false)\<close> (merged gap
  \<open>3 - 5 = SIZE_MAX - 1\<close>) evicts slot 7 and stores step 3.
\<close>

theorem eviction_failing_input:
  "size_slots \<lparr>maxNumSlots = 2,
       slots = [\<lparr>step = 5, persistent = True\<rparr>, \<lparr>step = 7, persistent = False\<rparr>],
       metrics = \<lparr>stores = 2, evictions = 0, recomputations = 0\<rparr>\<rparr> =
   unat (capacity \<lparr>maxNumSlots = 2,
       slots = [\<lparr>step = 5, persistent = True\<rparr>, \<lparr>step = 7, persistent = False\<rparr>],
       metrics = \<lparr>stores = 2, evictions = 0, recomputations = 0\<rparr>\<rparr>) \<and>
   mergedGap [\<lparr>step = 5, persistent = True\<rparr>, \<lparr>step = 7, persistent = False\<rparr>] 4 1 = - 1 \<and>
   find_eviction_candidate \<lparr>maxNumSlots = 2,
       slots = [\<lparr>step = 5, persistent = True\<rparr>, \<lparr>step = 7, persistent = False\<rparr>],
       metrics = \<lparr>stores = 2, evictions = 0, recomputations = 0\<rparr>\<rparr> 4 = 2 \<and>
   add_checkpoint_and_get_index_to_remove \<lparr>maxNumSlots = 2,
       slots = [\<lparr>step = 5, persistent = True\<rparr>, \<lparr>step = 7, persistent = False\<rparr>],
       metrics = \<lparr>stores = 2, evictions = 0, recomputations = 0\<rparr>\<rparr> 4 False =
     Inr (invalidCheckpointIndex, \<lparr>maxNumSlots = 2,
       slots = [\<lparr>step = 5, persistent = True\<rparr>, \<lparr>step = 7, persistent = False\<rparr>],
       metrics = \<lparr>stores = 3, evictions = 0, recomputations = 0\<rparr>\<rparr>) \<and>
   add_checkpoint_and_get_index_to_remove \<lparr>maxNumSlots = 2,
       slots = [\<lparr>step = 5, persistent = True\<rparr>, \<lparr>step = 7, persistent = False\<rparr>],
       metrics = \<lparr>stores = 2, evictions = 0, recomputations = 0\<rparr>\<rparr> 3 False =
     Inr (7, \<lparr>maxNumSlots = 2,
       slots = [\<lparr>step = 3, persistent = False\<rparr>, \<lparr>step = 5, persistent = True\<rparr>],
       metrics = \<lparr>stores = 3, evictions = 1, recomputations = 0\<rparr>\<rparr>)"
  by (simp add: eval_add size_slots_def capacity_def upt_rec)

section \<open>The postcondition of an add\<close>




section \<open>erase\_step\<close>

lemma erase_step_eq:
  "erase_step st s =
     (\<lparr>step = s, persistent = False\<rparr> \<in> set (slots st),
      st\<lparr>slots := remove1 \<lparr>step = s, persistent = False\<rparr> (slots st)\<rparr>)"
  by (simp add: erase_step_def erase_step_loop_remove1)

lemma slot_mem_iff:
  "\<lparr>step = s, persistent = p\<rparr> \<in> set sl \<longleftrightarrow> (\<exists>x\<in>set sl. step x = s \<and> persistent x = p)"
proof
  assume "\<lparr>step = s, persistent = p\<rparr> \<in> set sl"
  then have "\<exists>x\<in>set sl. x = \<lparr>step = s, persistent = p\<rparr>" by blast
  then show "\<exists>x\<in>set sl. step x = s \<and> persistent x = p"
    unfolding slot_eq_iff .
next
  assume "\<exists>x\<in>set sl. step x = s \<and> persistent x = p"
  then have "\<exists>x\<in>set sl. x = \<lparr>step = s, persistent = p\<rparr>"
    unfolding slot_eq_iff .
  then show "\<lparr>step = s, persistent = p\<rparr> \<in> set sl" by blast
qed

text \<open>
  C7 (amended): \<^verbatim>\<open>erase_step(s)\<close> returns true if and only if a non-persistent slot
  with step \<open>s\<close> is stored; then exactly the first such slot is erased, and otherwise
  the state is unchanged. The persistent slots are the same before and after. When step
  \<open>s\<close> is stored as persistent and no non-persistent slot has step \<open>s\<close> (as when the
  stored steps are distinct), the call returns false, leaves the state unchanged, and
  \<^verbatim>\<open>contains_step(s)\<close> still holds.
\<close>

theorem erase_step_spec:
  assumes "erase_step st s = (b, st')"
  shows "(b \<longleftrightarrow> (\<exists>x\<in>set (slots st). step x = s \<and> \<not> persistent x)) \<and>
         (b \<longrightarrow> (\<exists>i<length (slots st). step (slots st ! i) = s \<and> \<not> persistent (slots st ! i) \<and>
                    (\<forall>j<i. \<not> (step (slots st ! j) = s \<and> \<not> persistent (slots st ! j))) \<and>
                    st' = st\<lparr>slots := erase_at i (slots st)\<rparr>)) \<and>
         (\<not> b \<longrightarrow> st' = st) \<and>
         filter persistent (slots st') = filter persistent (slots st) \<and>
         ((\<exists>x\<in>set (slots st). step x = s \<and> persistent x) \<and>
          (\<forall>x\<in>set (slots st). step x = s \<longrightarrow> persistent x)
            \<longrightarrow> \<not> b \<and> st' = st \<and> contains_step st' s)"
proof -
  let ?x = "\<lparr>step = s, persistent = False\<rparr>"
  from assms have b: "b \<longleftrightarrow> ?x \<in> set (slots st)"
    and st': "st' = st\<lparr>slots := remove1 ?x (slots st)\<rparr>"
    by (simp_all add: erase_step_eq)
  have 1: "b \<longleftrightarrow> (\<exists>x\<in>set (slots st). step x = s \<and> \<not> persistent x)"
    using b by (simp add: slot_mem_iff)
  have 2: "\<exists>i<length (slots st). step (slots st ! i) = s \<and> \<not> persistent (slots st ! i) \<and>
                    (\<forall>j<i. \<not> (step (slots st ! j) = s \<and> \<not> persistent (slots st ! j))) \<and>
                    st' = st\<lparr>slots := erase_at i (slots st)\<rparr>" if b
  proof -
    from that b remove1_first [of ?x "slots st"]
    obtain i where "i < length (slots st)" "slots st ! i = ?x" "\<forall>j<i. slots st ! j \<noteq> ?x"
      "remove1 ?x (slots st) = erase_at i (slots st)"
      by blast
    then have "i < length (slots st) \<and> step (slots st ! i) = s \<and> \<not> persistent (slots st ! i) \<and>
                    (\<forall>j<i. \<not> (step (slots st ! j) = s \<and> \<not> persistent (slots st ! j))) \<and>
                    st' = st\<lparr>slots := erase_at i (slots st)\<rparr>"
      using st' by (simp add: slot_eq_iff)
    then show ?thesis by blast
  qed
  have 3: "st' = st" if "\<not> b"
    using that b st' by (simp add: remove1_idem)
  have 4: "filter persistent (slots st') = filter persistent (slots st)"
    using st' by (simp add: filter_remove1_other)
  have 5: "\<not> b \<and> st' = st \<and> contains_step st' s"
    if "\<exists>x\<in>set (slots st). step x = s \<and> persistent x"
       "\<forall>x\<in>set (slots st). step x = s \<longrightarrow> persistent x"
  proof -
    from that(2) 1 have nb: "\<not> b" by blast
    with 3 have "st' = st" by simp
    moreover from that(1) have "contains_step st s" by (auto simp: contains_step_iff)
    ultimately show ?thesis using nb by simp
  qed
  from 1 2 3 4 5 show ?thesis by blast
qed

text \<open>\<^verbatim>\<open>erase_step(0)\<close> with step 0 persistent and the stored steps distinct.\<close>

theorem erase_step_spec_witness:
  "erase_step \<lparr>maxNumSlots = 2,
       slots = [\<lparr>step = 0, persistent = True\<rparr>, \<lparr>step = 1, persistent = False\<rparr>],
       metrics = \<lparr>stores = 2, evictions = 0, recomputations = 0\<rparr>\<rparr> 0 =
     (False, \<lparr>maxNumSlots = 2,
       slots = [\<lparr>step = 0, persistent = True\<rparr>, \<lparr>step = 1, persistent = False\<rparr>],
       metrics = \<lparr>stores = 2, evictions = 0, recomputations = 0\<rparr>\<rparr>) \<and>
   contains_step \<lparr>maxNumSlots = 2,
       slots = [\<lparr>step = 0, persistent = True\<rparr>, \<lparr>step = 1, persistent = False\<rparr>],
       metrics = \<lparr>stores = 2, evictions = 0, recomputations = 0\<rparr>\<rparr> 0"
proof -
  have h: "erase_step \<lparr>maxNumSlots = 2,
       slots = [\<lparr>step = 0, persistent = True\<rparr>, \<lparr>step = 1, persistent = False\<rparr>],
       metrics = \<lparr>stores = 2, evictions = 0, recomputations = 0\<rparr>\<rparr> 0 =
     (False, \<lparr>maxNumSlots = 2,
       slots = [\<lparr>step = 0, persistent = True\<rparr>, \<lparr>step = 1, persistent = False\<rparr>],
       metrics = \<lparr>stores = 2, evictions = 0, recomputations = 0\<rparr>\<rparr>)"
    by (simp add: erase_step_def)
  from erase_step_spec [OF h] h show ?thesis by simp
qed

text \<open>
  With step 0 stored both as a persistent and as a non-persistent slot (the state after
  \<^verbatim>\<open>add(0, false)\<close> and \<^verbatim>\<open>add(0, true)\<close> on a strategy of capacity 1), the loop
  passes over the persistent slot and erases the other one: \<^verbatim>\<open>erase_step(0)\<close> returns
  true and changes the state.
\<close>

theorem erase_step_counterexample:
  "contains_step \<lparr>maxNumSlots = 2,
       slots = [\<lparr>step = 0, persistent = True\<rparr>, \<lparr>step = 0, persistent = False\<rparr>],
       metrics = \<lparr>stores = 2, evictions = 0, recomputations = 0\<rparr>\<rparr> 0 \<and>
   persistent (slots \<lparr>maxNumSlots = 2,
       slots = [\<lparr>step = 0, persistent = True\<rparr>, \<lparr>step = 0, persistent = False\<rparr>],
       metrics = \<lparr>stores = 2, evictions = 0, recomputations = 0\<rparr>\<rparr> ! 0) \<and>
   erase_step \<lparr>maxNumSlots = 2,
       slots = [\<lparr>step = 0, persistent = True\<rparr>, \<lparr>step = 0, persistent = False\<rparr>],
       metrics = \<lparr>stores = 2, evictions = 0, recomputations = 0\<rparr>\<rparr> 0 =
     (True, \<lparr>maxNumSlots = 2,
       slots = [\<lparr>step = 0, persistent = True\<rparr>],
       metrics = \<lparr>stores = 2, evictions = 0, recomputations = 0\<rparr>\<rparr>)"
  by (simp add: erase_step_def contains_step_def)

section \<open>Invariants of the reachable states\<close>

lemma unat_plus_one_no_wrap:
  "n < unat ((x :: size_t) + 1) \<Longrightarrow> unat (x + 1) = Suc (unat x)"
  by (metis add.commute not_less_zero unatSuc unat_0)

lemma length_filter_insert_sorted:
  "length (filter P (insert_sorted x sl)) = (if P x then Suc (length (filter P sl)) else length (filter P sl))"
  by (simp add: insert_sorted_def filter_insert_at)

lemma strategy_inv_add:
  assumes "strategy_inv c st"
    and "add_checkpoint_and_get_index_to_remove st s p = Inr (r, st')"
  shows "strategy_inv c st' \<and>
         unat (maxNumSlots st') = unat (maxNumSlots st) + (if p then 1 else 0)"
proof -
  let ?i = "find_eviction_candidate st s"
  let ?new = "\<lparr>step = s, persistent = p\<rparr>"
  have mx: "maxNumSlots st' = (if p then maxNumSlots st + 1 else maxNumSlots st)"
    by (rule add_result_maxNumSlots [OF assms(2)])
  have srt: "sorted (map step (slots st))"
    and len: "length (slots st) \<le> unat (maxNumSlots st)"
    and per: "length (filter persistent (slots st)) + c \<le> unat (maxNumSlots st)"
    using assms(1) by (simp_all add: strategy_inv_def)
  from add_result_slots [OF assms(2)]
  consider (ins) "length (slots st) < unat (maxNumSlots st')"
        "slots st' = insert_sorted ?new (slots st)"
    | (evict) "\<not> p" "?i < length (slots st)"
        "slots st' = insert_sorted ?new (erase_at ?i (slots st))"
    | (drop) "\<not> p" "slots st' = slots st"
    by blast
  then show ?thesis
  proof cases
    case ins
    have u: "unat (maxNumSlots st') = unat (maxNumSlots st) + (if p then 1 else 0)"
      using ins(1) mx unat_plus_one_no_wrap [of "length (slots st)" "maxNumSlots st"] by auto
    moreover have "sorted (map step (slots st'))"
      using srt ins(2) by (simp add: sorted_insert_sorted)
    moreover have "length (slots st') \<le> unat (maxNumSlots st')"
      using ins by simp
    moreover have "length (filter persistent (slots st')) + c \<le> unat (maxNumSlots st')"
      using per u ins(2) by (simp add: length_filter_insert_sorted)
    ultimately show ?thesis by (simp add: strategy_inv_def)
  next
    case evict
    have np: "\<not> persistent (slots st ! ?i)"
      by (rule find_eviction_candidate_some(1) [OF evict(2)])
    have "sorted (map step (erase_at ?i (slots st)))"
      using srt by (simp add: map_erase_at sorted_erase_at)
    then have "sorted (map step (slots st'))"
      using evict(3) by (simp add: sorted_insert_sorted)
    moreover have "length (slots st') \<le> unat (maxNumSlots st')"
      using evict len mx by simp
    moreover have "length (filter persistent (slots st')) + c \<le> unat (maxNumSlots st')"
      using per evict mx np by (simp add: length_filter_insert_sorted filter_erase_at)
    ultimately show ?thesis using evict(1) mx by (simp add: strategy_inv_def)
  next
    case drop
    with assms(1) mx show ?thesis by (simp add: strategy_inv_def)
  qed
qed

lemma strategy_inv_erase_step:
  "strategy_inv c st \<Longrightarrow> strategy_inv c (snd (erase_step st s))"
proof -
  assume a: "strategy_inv c st"
  let ?x = "\<lparr>step = s, persistent = False\<rparr>"
  have "length (remove1 ?x (slots st)) \<le> length (slots st)"
    by (simp add: length_remove1)
  moreover have "sorted (map step (remove1 ?x (slots st)))"
    using a by (simp add: strategy_inv_def sorted_map_remove1)
  ultimately show ?thesis
    using a by (simp add: strategy_inv_def erase_step_eq filter_remove1_other)
qed

lemma strategy_inv_reset: "strategy_inv c st \<Longrightarrow> strategy_inv c (reset st)"
proof -
  assume a: "strategy_inv c st"
  have "length (filter persistent (slots st)) \<le> length (slots st)" by simp
  moreover have "sorted (map step (filter persistent (slots st)))"
    using a by (simp add: strategy_inv_def sorted_filter)
  ultimately show ?thesis
    using a by (simp add: strategy_inv_def reset_def)
qed

lemma strategy_inv_apply:
  assumes "strategy_inv c st" and "apply_operation st x = Inr st'"
  shows "strategy_inv c st' \<and>
         unat (maxNumSlots st') = unat (maxNumSlots st) + (if is_persistent_add x then 1 else 0)"
proof (cases x)
  case (Add s p)
  with assms(2) obtain r where "add_checkpoint_and_get_index_to_remove st s p = Inr (r, st')"
    by (auto split: sum.splits)
  from strategy_inv_add [OF assms(1) this] Add show ?thesis by simp
next
  case (EraseStep s)
  with assms strategy_inv_erase_step [of c st s] show ?thesis
    by (auto simp: erase_step_eq)
next
  case Reset
  with assms strategy_inv_reset [of c st] show ?thesis by (auto simp: reset_def)
next
  case ResetMetrics
  with assms show ?thesis by (auto simp: reset_metrics_def strategy_inv_def)
next
  case RecordRecomputation
  with assms show ?thesis by (auto simp: record_recomputation_def strategy_inv_def)
qed

lemma strategy_inv_run:
  "strategy_inv c st \<Longrightarrow> run_operations st ops = Inr st' \<Longrightarrow>
     strategy_inv c st' \<and>
     unat (maxNumSlots st') = unat (maxNumSlots st) + persistent_adds ops"
proof (induction ops arbitrary: st)
  case Nil
  then show ?case by (simp add: persistent_adds_def)
next
  case (Cons x xs)
  from Cons.prems(2) obtain st1 where a: "apply_operation st x = Inr st1"
    and r: "run_operations st1 xs = Inr st'"
    by (auto split: sum.splits)
  from strategy_inv_apply [OF Cons.prems(1) a]
  have i1: "strategy_inv c st1"
    and m1: "unat (maxNumSlots st1) = unat (maxNumSlots st) + (if is_persistent_add x then 1 else 0)"
    by simp_all
  from Cons.IH [OF i1 r] m1 show ?case
    by (simp add: persistent_adds_def)
qed

lemma strategy_inv_new: "strategy_inv (unat maxStates) (new_OnlineR2CheckpointStrategy maxStates)"
  by (simp add: strategy_inv_def new_OnlineR2CheckpointStrategy_def)

lemma apply_operation_returns:
  assumes "strategy_inv c st"
    and "unat (maxNumSlots st) + (if is_persistent_add x then 1 else 0) < 2 ^ 64"
  shows "\<exists>st'. apply_operation st x = Inr st'"
proof (cases x)
  case (Add s p)
  show ?thesis
  proof (cases "add_checkpoint_and_get_index_to_remove st s p")
    case (Inl e)
    then have p: p and nl: "\<not> length (slots st) < unat (maxNumSlots st + 1)"
      by (simp_all add: add_fails_iff)
    from assms(2) Add p have "unat (maxNumSlots st) + 1 < 2 ^ 64" by simp
    then have "unat (maxNumSlots st + 1) = unat (maxNumSlots st) + 1"
      by (simp add: unat_word_ariths)
    with nl assms(1) show ?thesis by (simp add: strategy_inv_def)
  next
    case (Inr a)
    with Add show ?thesis by (cases a) simp
  qed
qed simp_all

lemma run_operations_returns:
  "strategy_inv c st \<Longrightarrow> unat (maxNumSlots st) + persistent_adds ops < 2 ^ 64 \<Longrightarrow>
     \<exists>st'. run_operations st ops = Inr st'"
proof (induction ops arbitrary: st)
  case Nil
  then show ?case by simp
next
  case (Cons x xs)
  have "unat (maxNumSlots st) + (if is_persistent_add x then 1 else 0) < 2 ^ 64"
    using Cons.prems(2) by (simp add: persistent_adds_def split: if_splits)
  from apply_operation_returns [OF Cons.prems(1) this]
  obtain st1 where a: "apply_operation st x = Inr st1" by blast
  from strategy_inv_apply [OF Cons.prems(1) a]
  have i1: "strategy_inv c st1"
    and m1: "unat (maxNumSlots st1) = unat (maxNumSlots st) + (if is_persistent_add x then 1 else 0)"
    by simp_all
  have "unat (maxNumSlots st1) + persistent_adds xs < 2 ^ 64"
    using Cons.prems(2) m1 by (simp add: persistent_adds_def split: if_splits)
  from Cons.IH [OF i1 this] a show ?case by simp
qed

lemma sorted_map_last_Max:
  assumes "sorted (map f xs)" and "xs \<noteq> []"
  shows "f (last xs) = Max (f ` set xs)"
proof -
  have ub: "\<forall>y\<in>f ` set xs. y \<le> f (last xs)"
  proof
    fix y assume "y \<in> f ` set xs"
    then obtain i where i: "i < length xs" "y = f (xs ! i)"
      by (auto simp: in_set_conv_nth)
    from sorted_nth_mono [OF assms(1), of i "length xs - 1"] i assms(2)
    show "y \<le> f (last xs)"
      by (simp add: last_conv_nth)
  qed
  have mem: "f (last xs) \<in> f ` set xs"
    using assms(2) by simp
  from ub mem show ?thesis
    by (intro Max_eqI [symmetric]) auto
qed

lemma exists_non_persistent:
  assumes "strategy_inv c st" and "1 \<le> c" and "\<not> length (slots st) < unat (maxNumSlots st)"
  shows "\<exists>j<length (slots st). \<not> persistent (slots st ! j)"
proof (rule ccontr)
  assume "\<not> (\<exists>j<length (slots st). \<not> persistent (slots st ! j))"
  then have "\<forall>x\<in>set (slots st). persistent x"
    by (auto simp: in_set_conv_nth)
  then have "filter persistent (slots st) = slots st" by simp
  with assms show False by (simp add: strategy_inv_def)
qed

section \<open>Size and capacity\<close>

text \<open>
  C8: after every sequence of public operations on a strategy constructed with
  \<open>maxStates\<close>, \<^verbatim>\<open>size() \<le> capacity()\<close>, where \<^verbatim>\<open>capacity()\<close> is \<open>maxStates\<close> plus
  the number of persistent adds performed. (The sequence \<open>ops\<close> is arbitrary, so this
  holds after each of its prefixes; the step arguments need not be distinct.) The run
  returns whenever that sum is below \<open>2 ^ 64\<close>; otherwise a persistent add fails its
  assertion.
\<close>

theorem size_le_capacity:
  "(unat maxStates + persistent_adds ops < 2 ^ 64 \<longrightarrow>
      (\<exists>st. run_operations (new_OnlineR2CheckpointStrategy maxStates) ops = Inr st)) \<and>
   (\<forall>st. run_operations (new_OnlineR2CheckpointStrategy maxStates) ops = Inr st \<longrightarrow>
      size_slots st \<le> unat (capacity st) \<and>
      unat (capacity st) = unat maxStates + persistent_adds ops)"
proof (intro conjI impI allI)
  assume "unat maxStates + persistent_adds ops < 2 ^ 64"
  then show "\<exists>st. run_operations (new_OnlineR2CheckpointStrategy maxStates) ops = Inr st"
    using run_operations_returns [OF strategy_inv_new, of maxStates ops]
    by (simp add: new_OnlineR2CheckpointStrategy_def)
next
  fix st
  assume r: "run_operations (new_OnlineR2CheckpointStrategy maxStates) ops = Inr st"
  from strategy_inv_run [OF strategy_inv_new r]
  show "size_slots st \<le> unat (capacity st)"
    and "unat (capacity st) = unat maxStates + persistent_adds ops"
    by (simp_all add: strategy_inv_def size_slots_def capacity_def new_OnlineR2CheckpointStrategy_def)
qed

theorem size_le_capacity_witness:
  "run_operations (new_OnlineR2CheckpointStrategy 1)
      [Add 0 True, Add 1 False, Add 2 False, EraseStep 2, Reset] =
     Inr \<lparr>maxNumSlots = 2, slots = [\<lparr>step = 0, persistent = True\<rparr>],
          metrics = \<lparr>stores = 3, evictions = 1, recomputations = 0\<rparr>\<rparr> \<and>
   size_slots \<lparr>maxNumSlots = 2, slots = [\<lparr>step = 0, persistent = True\<rparr>],
          metrics = \<lparr>stores = 3, evictions = 1, recomputations = 0\<rparr>\<rparr> \<le>
   unat (capacity \<lparr>maxNumSlots = 2, slots = [\<lparr>step = 0, persistent = True\<rparr>],
          metrics = \<lparr>stores = 3, evictions = 1, recomputations = 0\<rparr>\<rparr>)"
proof -
  have h: "run_operations (new_OnlineR2CheckpointStrategy 1)
      [Add 0 True, Add 1 False, Add 2 False, EraseStep 2, Reset] =
     Inr \<lparr>maxNumSlots = 2, slots = [\<lparr>step = 0, persistent = True\<rparr>],
          metrics = \<lparr>stores = 3, evictions = 1, recomputations = 0\<rparr>\<rparr>"
    by (simp add: eval_add erase_step_def reset_def upt_rec)
  from size_le_capacity [of 1 "[Add 0 True, Add 1 False, Add 2 False, EraseStep 2, Reset]"] h
  show ?thesis by simp
qed

section \<open>The last checkpoint\<close>

text \<open>
  C9: in every state reached by public operations, the slot vector is sorted by step,
  and if it is not empty then \<^verbatim>\<open>last_checkpoint_step()\<close> returns the greatest stored
  step.
\<close>

theorem last_checkpoint_step_greatest:
  assumes "run_operations (new_OnlineR2CheckpointStrategy maxStates) ops = Inr st"
    and "slots st \<noteq> []"
  shows "sorted (map step (slots st)) \<and>
         last_checkpoint_step st = Inr (Max (step ` set (slots st)))"
proof -
  from strategy_inv_run [OF strategy_inv_new assms(1)]
  have s: "sorted (map step (slots st))" by (simp add: strategy_inv_def)
  from sorted_map_last_Max [OF s assms(2)] assms(2) s
  show ?thesis by (simp add: last_checkpoint_step_def)
qed

theorem last_checkpoint_step_greatest_witness:
  "run_operations (new_OnlineR2CheckpointStrategy 2)
      [Add 7 False, Add 0 True, Add 3 False] =
     Inr \<lparr>maxNumSlots = 3,
          slots = [\<lparr>step = 0, persistent = True\<rparr>, \<lparr>step = 3, persistent = False\<rparr>,
                   \<lparr>step = 7, persistent = False\<rparr>],
          metrics = \<lparr>stores = 3, evictions = 0, recomputations = 0\<rparr>\<rparr> \<and>
   last_checkpoint_step \<lparr>maxNumSlots = 3,
          slots = [\<lparr>step = 0, persistent = True\<rparr>, \<lparr>step = 3, persistent = False\<rparr>,
                   \<lparr>step = 7, persistent = False\<rparr>],
          metrics = \<lparr>stores = 3, evictions = 0, recomputations = 0\<rparr>\<rparr> = Inr 7"
proof -
  have h: "run_operations (new_OnlineR2CheckpointStrategy 2)
      [Add 7 False, Add 0 True, Add 3 False] =
     Inr \<lparr>maxNumSlots = 3,
          slots = [\<lparr>step = 0, persistent = True\<rparr>, \<lparr>step = 3, persistent = False\<rparr>,
                   \<lparr>step = 7, persistent = False\<rparr>],
          metrics = \<lparr>stores = 3, evictions = 0, recomputations = 0\<rparr>\<rparr>"
    by (simp add: eval_add)
  from last_checkpoint_step_greatest [OF h] h show ?thesis by simp
qed

section \<open>The branch that drops the new slot\<close>

text \<open>
  For a strategy constructed with \<open>maxStates \<ge> 1\<close>, in every state reached by public
  operations, at capacity at least one stored slot is non-persistent; the loop finds a
  candidate exactly when one of them has a merged gap other than \<open>SIZE_MAX\<close>, and it
  does for every valid \<open>newStep\<close> beyond the stored steps.
\<close>

lemma candidate_at_capacity:
  assumes "1 \<le> unat maxStates"
    and "run_operations (new_OnlineR2CheckpointStrategy maxStates) ops = Inr st"
    and "\<not> length (slots st) < unat (maxNumSlots st)"
  shows "(\<exists>j<length (slots st). \<not> persistent (slots st ! j)) \<and>
         (find_eviction_candidate st newStep < length (slots st) \<longleftrightarrow>
            (\<exists>j<length (slots st). \<not> persistent (slots st ! j) \<and>
               mergedGap (slots st) newStep j \<noteq> - 1)) \<and>
         ((\<forall>x\<in>set (slots st). step x < newStep) \<and> newStep \<noteq> invalidCheckpointIndex \<longrightarrow>
            find_eviction_candidate st newStep < length (slots st))"
proof -
  from strategy_inv_run [OF strategy_inv_new assms(2)]
  have inv: "strategy_inv (unat maxStates) st" by simp
  from exists_non_persistent [OF inv assms(1,3)]
  have ex: "\<exists>j<length (slots st). \<not> persistent (slots st ! j)" .
  have iff: "find_eviction_candidate st newStep < length (slots st) \<longleftrightarrow>
            (\<exists>j<length (slots st). \<not> persistent (slots st ! j) \<and>
               mergedGap (slots st) newStep j \<noteq> - 1)"
    using find_eviction_candidate_none [of st newStep] find_eviction_candidate_le [of st newStep]
    by auto
  have "find_eviction_candidate st newStep < length (slots st)"
    if "\<forall>x\<in>set (slots st). step x < newStep" "newStep \<noteq> invalidCheckpointIndex"
  proof -
    from inv have s: "sorted (map step (slots st))" by (simp add: strategy_inv_def)
    from ex obtain j where j: "j < length (slots st)" "\<not> persistent (slots st ! j)" by blast
    from mergedGap_not_max [OF s that(1) _ j(1)] that(2)
    have "mergedGap (slots st) newStep j \<noteq> - 1" by (simp add: invalidCheckpointIndex_def)
    with j iff show ?thesis by blast
  qed
  with ex iff show ?thesis by blast
qed

text \<open>
  C6: for a strategy constructed with \<open>maxStates \<ge> 1\<close>, the branch of a non-persistent
  add that drops the new slot is unreachable by public operations with distinct step
  arguments, since at capacity a non-persistent slot is stored. The code reaches it all
  the same, by the strict comparison with the initial \<^verbatim>\<open>bestMergedGap = SIZE_MAX\<close>:
  with \<open>maxStates = 1\<close>, after \<^verbatim>\<open>add(2, true)\<close> and \<^verbatim>\<open>add(9, false)\<close> the strategy is at
  capacity with the non-persistent slot 9 stored, and \<^verbatim>\<open>add(1, false)\<close> (merged gap
  \<open>1 - 2 = SIZE_MAX\<close>) finds no candidate and drops step 1; \<^verbatim>\<open>add(0, false)\<close> on the
  same state evicts slot 9 and stores step 0.
\<close>

theorem drop_branch_failing_input:
  "run_operations (new_OnlineR2CheckpointStrategy 1) [Add 2 True, Add 9 False] =
     Inr \<lparr>maxNumSlots = 2,
          slots = [\<lparr>step = 2, persistent = True\<rparr>, \<lparr>step = 9, persistent = False\<rparr>],
          metrics = \<lparr>stores = 2, evictions = 0, recomputations = 0\<rparr>\<rparr> \<and>
   find_eviction_candidate \<lparr>maxNumSlots = 2,
          slots = [\<lparr>step = 2, persistent = True\<rparr>, \<lparr>step = 9, persistent = False\<rparr>],
          metrics = \<lparr>stores = 2, evictions = 0, recomputations = 0\<rparr>\<rparr> 1 = 2 \<and>
   run_operations (new_OnlineR2CheckpointStrategy 1) [Add 2 True, Add 9 False, Add 1 False] =
     Inr \<lparr>maxNumSlots = 2,
          slots = [\<lparr>step = 2, persistent = True\<rparr>, \<lparr>step = 9, persistent = False\<rparr>],
          metrics = \<lparr>stores = 3, evictions = 0, recomputations = 0\<rparr>\<rparr> \<and>
   run_operations (new_OnlineR2CheckpointStrategy 1) [Add 2 True, Add 9 False, Add 0 False] =
     Inr \<lparr>maxNumSlots = 2,
          slots = [\<lparr>step = 0, persistent = False\<rparr>, \<lparr>step = 2, persistent = True\<rparr>],
          metrics = \<lparr>stores = 3, evictions = 1, recomputations = 0\<rparr>\<rparr>"
  by (simp add: eval_add upt_rec)

section \<open>The driver under the strategy contract\<close>

lemma unat_succ_below:
  "(l :: size_t) < b \<Longrightarrow> unat (l + 1) = Suc (unat l)"
proof -
  assume "l < b"
  then have "unat l < unat b" by (simp add: word_less_nat_alt)
  moreover have "unat b < 2 ^ 64" using unsigned_less [of b] by simp
  ultimately show ?thesis by (simp add: unat_word_ariths)
qed

lemma succ_le_below: "(l :: size_t) < b \<Longrightarrow> l + 1 \<le> b"
  by (simp add: word_le_nat_alt word_less_nat_alt unat_succ_below)

lemma less_succ_below: "(l :: size_t) < b \<Longrightarrow> j \<le> l \<Longrightarrow> j < l + 1"
  by (simp add: word_le_nat_alt word_less_nat_alt unat_succ_below)

lemma valid_below: "(k :: size_t) \<le> b \<Longrightarrow> b \<noteq> - 1 \<Longrightarrow> valid_checkpoint_index k"
  unfolding valid_checkpoint_index_def invalidCheckpointIndex_def
  by (metis word_order.extremum_uniqueI)

lemma map_subscript_present: "m k = Some v \<Longrightarrow> map_subscript d m k = (v, m)"
  by (simp add: map_subscript_def)

text \<open>One recomputation or forward step: the state of step \<open>l + 1\<close> is stored.\<close>

lemma driver_add_step:
  assumes c: "strategy_contract S I stored"
    and inv: "driver_inv I stored (naive_forward_state u x0) l saved cps"
    and l: "l \<in> stored cps"
    and below: "l < b" "b \<noteq> - 1"
  shows "\<exists>r cps'. strategy_add S cps (l + 1) False = Inr (r, cps') \<and>
           map_subscript d saved l = (naive_forward_state u x0 (unat l), saved) \<and>
           u l (naive_forward_state u x0 (unat l)) = naive_forward_state u x0 (unat (l + 1)) \<and>
           driver_inv I stored (naive_forward_state u x0) (l + 1)
             (store_step r (l + 1) (naive_forward_state u x0 (unat (l + 1))) saved) cps' \<and>
           l + 1 \<in> stored cps'"
proof -
  let ?X = "naive_forward_state u x0"
  from inv have I: "I cps" and dom: "stored cps \<subseteq> dom saved"
    and vals: "\<forall>k v. saved k = Some v \<longrightarrow> v = ?X (unat k)"
    and le: "\<forall>j\<in>stored cps. j \<le> l"
    by (simp_all add: driver_inv_def)
  from l dom obtain v where "saved l = Some v" by auto
  with vals have sl: "saved l = Some (?X (unat l))" by auto
  then have ms: "map_subscript d saved l = (?X (unat l), saved)"
    by (rule map_subscript_present)
  have un: "unat (l + 1) = Suc (unat l)" by (rule unat_succ_below [OF below(1)])
  have up: "u l (?X (unat l)) = ?X (unat (l + 1))"
    by (simp add: un)
  have lt: "\<forall>j\<in>stored cps. j < l + 1"
    using le less_succ_below [OF below(1)] by blast
  have v: "valid_checkpoint_index (l + 1)"
    using succ_le_below [OF below(1)] below(2) by (rule valid_below)
  from c I lt v obtain r cps' where
    a: "strategy_add S cps (l + 1) False = Inr (r, cps')" and I': "I cps'"
    and st: "if valid_checkpoint_index r
             then r \<in> stored cps \<and> stored cps' = insert (l + 1) (stored cps - {r})
             else stored cps' = insert (l + 1) (stored cps)"
    unfolding strategy_contract_def by blast
  let ?saved' = "store_step r (l + 1) (?X (unat (l + 1))) saved"
  have mem: "l + 1 \<in> stored cps'"
    using st by (auto split: if_splits)
  have dom': "stored cps' \<subseteq> dom ?saved'"
    using st dom by (auto simp: store_step_def Let_def split: if_splits)
  have vals': "\<forall>k v. ?saved' k = Some v \<longrightarrow> v = ?X (unat k)"
    using vals by (auto simp: store_step_def Let_def split: if_splits)
  have le': "\<forall>j\<in>stored cps'. j \<le> l + 1"
  proof
    fix j assume "j \<in> stored cps'"
    with st have "j = l + 1 \<or> j \<in> stored cps" by (auto split: if_splits)
    with lt show "j \<le> l + 1" by auto
  qed
  from I' dom' vals' le' have "driver_inv I stored ?X (l + 1) ?saved' cps'"
    by (simp add: driver_inv_def)
  with a ms up mem show ?thesis by blast
qed

lemma forward_loop_correct:
  assumes c: "strategy_contract S I stored" and N: "N \<noteq> - 1"
  shows "unat N - unat i = n \<Longrightarrow> i \<le> N \<Longrightarrow>
     driver_inv I stored (naive_forward_state u x0) i saved cps \<Longrightarrow> i \<in> stored cps \<Longrightarrow>
     x = naive_forward_state u x0 (unat i) \<Longrightarrow>
     \<exists>saved' cps'. forward_loop S d u N i x saved cps =
         Inr (naive_forward_state u x0 (unat N), saved', cps') \<and>
       driver_inv I stored (naive_forward_state u x0) N saved' cps' \<and> N \<in> stored cps'"
proof (induction n arbitrary: i x saved cps)
  case 0
  then have "unat N \<le> unat i" by simp
  with "0.prems"(2) have "i = N" by (simp add: word_le_nat_alt word_unat_eq_iff)
  with "0.prems" show ?case by (subst forward_loop.simps) simp
next
  case (Suc n)
  then have lt: "i < N" by (simp add: word_less_nat_alt)
  from driver_add_step [OF c Suc.prems(3,4) lt N, of d]
  obtain r cps' where a: "strategy_add S cps (i + 1) False = Inr (r, cps')"
    and ms: "map_subscript d saved i = (naive_forward_state u x0 (unat i), saved)"
    and up: "u i (naive_forward_state u x0 (unat i)) = naive_forward_state u x0 (unat (i + 1))"
    and inv': "driver_inv I stored (naive_forward_state u x0) (i + 1)
             (store_step r (i + 1) (naive_forward_state u x0 (unat (i + 1))) saved) cps'"
    and mem: "i + 1 \<in> stored cps'"
    by blast
  have un: "unat (i + 1) = Suc (unat i)" by (rule unat_succ_below [OF lt])
  have m: "unat N - unat (i + 1) = n" using Suc.prems(1) un by simp
  have le: "i + 1 \<le> N" by (rule succ_le_below [OF lt])
  from Suc.IH [OF m le inv' mem refl]
  obtain saved'' cps'' where
    f: "forward_loop S d u N (i + 1) (naive_forward_state u x0 (unat (i + 1)))
          (store_step r (i + 1) (naive_forward_state u x0 (unat (i + 1))) saved) cps' =
         Inr (naive_forward_state u x0 (unat N), saved'', cps'')"
    and r: "driver_inv I stored (naive_forward_state u x0) N saved'' cps''" "N \<in> stored cps''"
    by blast
  have "forward_loop S d u N i x saved cps =
          Inr (naive_forward_state u x0 (unat N), saved'', cps'')"
    using lt a ms up f by (subst forward_loop.simps) simp
  with r show ?case by blast
qed

lemma restore_loop_correct:
  assumes c: "strategy_contract S I stored" and i: "i \<noteq> - 1"
  shows "unat i - unat (Max (stored cps)) = n \<Longrightarrow>
     driver_inv I stored (naive_forward_state u x0) i saved cps \<Longrightarrow>
     \<exists>saved' cps'. restore_loop S d u i saved cps = Some (Inr (saved', cps')) \<and>
       driver_inv I stored (naive_forward_state u x0) i saved' cps' \<and> i \<in> stored cps'"
proof (induction n arbitrary: saved cps)
  case 0
  let ?l = "Max (stored cps)"
  from "0.prems"(2) have I: "I cps" and le: "\<forall>j\<in>stored cps. j \<le> i"
    by (simp_all add: driver_inv_def)
  from c I have fin: "finite (stored cps)" and ne: "0 \<in> stored cps"
    and last: "strategy_last S cps = Inr ?l"
    unfolding strategy_contract_def by blast+
  from fin ne have mem: "?l \<in> stored cps" by (intro Max_in) auto
  with le have "?l \<le> i" by blast
  moreover from "0.prems"(1) have "unat i \<le> unat ?l" by simp
  ultimately have eq: "?l = i" by (simp add: word_le_nat_alt word_unat_eq_iff)
  have "restore_loop S d u i saved cps = Some (Inr (saved, cps))"
    using last eq by (subst restore_loop.simps) simp
  with "0.prems"(2) mem eq show ?case by auto
next
  case (Suc n)
  let ?l = "Max (stored cps)"
  let ?X = "naive_forward_state u x0"
  from Suc.prems(2) have I: "I cps" and dom: "stored cps \<subseteq> dom saved"
    and vals: "\<forall>k v. saved k = Some v \<longrightarrow> v = ?X (unat k)"
    by (simp_all add: driver_inv_def)
  from c I have fin: "finite (stored cps)" and ne: "0 \<in> stored cps"
    and last: "strategy_last S cps = Inr ?l"
    unfolding strategy_contract_def by blast+
  from fin ne have mem: "?l \<in> stored cps" by (intro Max_in) auto
  from Suc.prems(1) have lt: "?l < i" by (simp add: word_less_nat_alt)
  have invl: "driver_inv I stored ?X ?l saved cps"
    using I dom vals fin by (simp add: driver_inv_def)
  from driver_add_step [OF c invl mem lt i, of d]
  obtain r cps' where a: "strategy_add S cps (?l + 1) False = Inr (r, cps')"
    and ms: "map_subscript d saved ?l = (?X (unat ?l), saved)"
    and up: "u ?l (?X (unat ?l)) = ?X (unat (?l + 1))"
    and inv': "driver_inv I stored ?X (?l + 1)
                 (store_step r (?l + 1) (?X (unat (?l + 1))) saved) cps'"
    and mem': "?l + 1 \<in> stored cps'"
    by blast
  let ?saved' = "store_step r (?l + 1) (?X (unat (?l + 1))) saved"
  let ?cps'' = "strategy_record S cps'"
  from inv' have I': "I cps'" by (simp add: driver_inv_def)
  with c have I'': "I ?cps''" and st'': "stored ?cps'' = stored cps'"
    unfolding strategy_contract_def by blast+
  from c I' have fin': "finite (stored cps')"
    unfolding strategy_contract_def by blast
  have le1: "\<forall>j\<in>stored cps'. j \<le> ?l + 1"
    using inv' by (simp add: driver_inv_def)
  have mx: "Max (stored ?cps'') = ?l + 1"
    unfolding st'' using fin' mem' le1 by (intro Max_eqI) auto
  have li: "?l + 1 \<le> i" by (rule succ_le_below [OF lt])
  have inv'': "driver_inv I stored ?X i ?saved' ?cps''"
    using inv' I'' st'' li le1 by (auto simp: driver_inv_def)
  have m: "unat i - unat (Max (stored ?cps'')) = n"
    using Suc.prems(1) mx unat_succ_below [OF lt] by simp
  from Suc.IH [OF m inv'']
  obtain saved2 cps2 where
    r: "restore_loop S d u i ?saved' ?cps'' = Some (Inr (saved2, cps2))"
    and res: "driver_inv I stored ?X i saved2 cps2" "i \<in> stored cps2"
    by blast
  have "restore_loop S d u i saved cps = Some (Inr (saved2, cps2))"
    using last lt ms a up r by (subst restore_loop.simps) simp
  with res show ?case by blast
qed

lemma pred_le_below:
  "(j :: size_t) \<le> i \<Longrightarrow> j \<noteq> i \<Longrightarrow> j \<le> i - 1"
proof -
  assume a: "j \<le> i" "j \<noteq> i"
  then have lt: "unat j < unat i"
    by (simp add: word_le_nat_alt word_unat_eq_iff)
  then have "i \<noteq> 0" by auto
  then have "unat (i - 1) = unat i - 1"
    by (simp add: unat_minus_one)
  with lt show ?thesis by (simp add: word_le_nat_alt)
qed

lemma reverse_loop_correct:
  assumes c: "strategy_contract S I stored"
  shows "unat i = n \<Longrightarrow> i \<noteq> - 1 \<Longrightarrow>
     driver_inv I stored (naive_forward_state u x0) i saved cps \<Longrightarrow>
     reverse_loop S d u i saved cps calls = Some (Inr (calls @ reverse_calls u x0 n))"
proof (induction n arbitrary: i saved cps calls)
  case 0
  let ?X = "naive_forward_state u x0"
  from "0.prems"(1) have i0: "i = 0" by (simp add: unat_eq_0)
  from restore_loop_correct [OF c "0.prems"(2) refl "0.prems"(3), of d]
  obtain saved' cps' where
    r: "restore_loop S d u i saved cps = Some (Inr (saved', cps'))"
    and inv': "driver_inv I stored ?X i saved' cps'" and mem: "i \<in> stored cps'"
    by blast
  from inv' mem have "saved' i = Some (?X (unat i))"
    by (auto simp: driver_inv_def)
  then have ms: "map_subscript d saved' i = (?X (unat i), saved')"
    by (rule map_subscript_present)
  have stop: "reverse_loop S d u (- 1) m s l = Some (Inr l)" for m s l
    by (subst reverse_loop.simps) simp
  show ?case
    using r ms stop i0 by (subst reverse_loop.simps) (simp add: reverse_calls_def)
next
  case (Suc n)
  let ?X = "naive_forward_state u x0"
  from Suc.prems(1) have nz: "i \<noteq> 0" by auto
  from Suc.prems(2) have pos: "0 < i + 1"
    by (metis add.commute add_eq_0_iff2 word_neq_0_conv)
  from restore_loop_correct [OF c Suc.prems(2) refl Suc.prems(3), of d]
  obtain saved' cps' where
    r: "restore_loop S d u i saved cps = Some (Inr (saved', cps'))"
    and inv': "driver_inv I stored ?X i saved' cps'" and mem: "i \<in> stored cps'"
    by blast
  from inv' mem have "saved' i = Some (?X (unat i))"
    by (auto simp: driver_inv_def)
  then have ms: "map_subscript d saved' i = (?X (unat i), saved')"
    by (rule map_subscript_present)
  let ?cps'' = "snd (strategy_erase S cps' i)"
  from inv' have I': "I cps'" by (simp add: driver_inv_def)
  with c nz have I'': "I ?cps''" and st'': "stored ?cps'' = stored cps' - {i}"
    unfolding strategy_contract_def by blast+
  have inv'': "driver_inv I stored ?X (i - 1) (saved'(i := None)) ?cps''"
    using inv' I'' st'' pred_le_below [of _ i] by (auto simp: driver_inv_def)
  have un: "unat (i - 1) = n"
    using Suc.prems(1) nz by (simp add: unat_minus_one)
  have nm: "i - 1 \<noteq> - 1" using nz by simp
  from Suc.IH [OF un nm inv'']
  have rec: "reverse_loop S d u (i - 1) (saved'(i := None)) ?cps'' (calls @ [(i, ?X (unat i))]) =
               Some (Inr ((calls @ [(i, ?X (unat i))]) @ reverse_calls u x0 n))" .
  have "of_nat (unat i) = i" by simp
  then have "of_nat (Suc n) = i"
    using Suc.prems(1) by simp
  then have "reverse_calls u x0 (Suc n) = (i, ?X (unat i)) # reverse_calls u x0 n"
    using Suc.prems(1) by (simp add: reverse_calls_def)
  then show ?case
    using pos r ms rec by (subst reverse_loop.simps) simp
qed

text \<open>
  With any strategy that meets the contract, the driver returns: the returned value is
  the final forward state after the conversion to \<^verbatim>\<open>double\<close> and back, and the callback
  has been invoked on \<open>(N, x\<^sub>N), \<dots>, (0, x\<^sub>0)\<close>.
\<close>

lemma driver_correct:
  assumes c: "strategy_contract S I stored"
    and init: "strategy_add S s0 0 True = Inr (r0, s1)" "I s1" "stored s1 = {0}"
    and N: "N \<noteq> - 1"
  shows "advance_and_reverse_steps T S N storageSize x0 u s0 =
           Some (Inr (via_double T (naive_forward_state u x0 (unat N)),
                      reverse_calls u x0 (unat N)))"
proof -
  let ?X = "naive_forward_state u x0"
  have inv0: "driver_inv I stored ?X 0 (Map.empty(0 \<mapsto> x0)) s1"
    using init(2,3) by (auto simp: driver_inv_def)
  have mem0: "0 \<in> stored s1" using init(3) by simp
  from forward_loop_correct [OF c N refl _ inv0 mem0, of x0 "value_init T"]
  obtain saved' cps' where
    f: "forward_loop S (value_init T) u N 0 x0 (Map.empty(0 \<mapsto> x0)) s1 =
          Inr (?X (unat N), saved', cps')"
    and inv': "driver_inv I stored ?X N saved' cps'"
    by auto
  from reverse_loop_correct [OF c refl N inv', of "value_init T" "[]"]
  have "reverse_loop S (value_init T) u N saved' cps' [] =
          Some (Inr (reverse_calls u x0 (unat N)))" by simp
  with init(1) f show ?thesis
    by (simp add: advance_and_reverse_steps_def)
qed

section \<open>OnlineR2CheckpointStrategy meets the contract\<close>

lemma OnlineR2_strategy_simps [simp]:
  "strategy_add OnlineR2_strategy = add_checkpoint_and_get_index_to_remove"
  "strategy_last OnlineR2_strategy = last_checkpoint_step"
  "strategy_erase OnlineR2_strategy = erase_step"
  "strategy_record OnlineR2_strategy = record_recomputation"
  by (simp_all add: OnlineR2_strategy_def)

lemma r2_last:
  assumes "r2_driver_state c st"
  shows "finite (stored_steps st) \<and> 0 \<in> stored_steps st \<and>
         last_checkpoint_step st = Inr (Max (stored_steps st))"
proof -
  from assms have s: "sorted (map step (slots st))" and z: "0 \<in> step ` set (slots st)"
    by (simp_all add: r2_driver_state_def strategy_inv_def)
  from z have ne: "slots st \<noteq> []" by auto
  from sorted_map_last_Max [OF s ne] ne z show ?thesis
    by (simp add: stored_steps_def last_checkpoint_step_def)
qed

lemma strict_sorted_append_greatest:
  "sorted_wrt (<) (map step sl) \<Longrightarrow> \<forall>x\<in>set sl. step x < k \<Longrightarrow>
     sorted_wrt (<) (map step (sl @ [\<lparr>step = k, persistent = p\<rparr>]))"
  by (simp add: sorted_wrt_append)

lemma r2_add:
  assumes inv: "r2_driver_state c st"
    and below: "\<forall>j\<in>stored_steps st. j < k"
    and valid: "valid_checkpoint_index k"
  shows "\<exists>r st'. add_checkpoint_and_get_index_to_remove st k False = Inr (r, st') \<and>
           r2_driver_state c st' \<and>
           (if valid_checkpoint_index r
            then r \<in> stored_steps st \<and> stored_steps st' = insert k (stored_steps st - {r})
            else stored_steps st' = insert k (stored_steps st))"
proof -
  let ?new = "\<lparr>step = k, persistent = False\<rparr>"
  from inv have sinv: "strategy_inv c st" and c1: "1 \<le> c"
    and strict: "sorted_wrt (<) (map step (slots st))"
    and zero: "0 \<in> step ` set (slots st)"
    and pers: "\<forall>x\<in>set (slots st). persistent x \<longleftrightarrow> step x = 0"
    by (simp_all add: r2_driver_state_def)
  from below have lt: "\<forall>x\<in>set (slots st). step x < k"
    by (simp add: stored_steps_def)
  from zero lt have k0: "k \<noteq> 0" by auto
  show ?thesis
  proof (cases "length (slots st) < unat (maxNumSlots st)")
    case True
    let ?st' = "st\<lparr>slots := insert_sorted ?new (slots st),
                    metrics := count_add invalidCheckpointIndex (metrics st)\<rparr>"
    have a: "add_checkpoint_and_get_index_to_remove st k False = Inr (invalidCheckpointIndex, ?st')"
      by (rule add_below_capacity [OF True])
    have sl: "slots ?st' = slots st @ [?new]"
      using lt by (simp add: insert_sorted_greatest)
    have "strategy_inv c ?st'"
      using strategy_inv_add [OF sinv a] by simp
    moreover have "sorted_wrt (<) (map step (slots ?st'))"
      unfolding sl by (rule strict_sorted_append_greatest [OF strict lt])
    ultimately have "r2_driver_state c ?st'"
      using c1 zero pers k0 sl by (auto simp: r2_driver_state_def)
    moreover have "stored_steps ?st' = insert k (stored_steps st)"
      by (simp add: stored_steps_def)
    ultimately show ?thesis
      using a by (simp add: valid_checkpoint_index_def)
  next
    case False
    let ?i = "find_eviction_candidate st k"
    from sinv have srt: "sorted (map step (slots st))" by (simp add: strategy_inv_def)
    from exists_non_persistent [OF sinv c1 False]
    obtain j where j: "j < length (slots st)" "\<not> persistent (slots st ! j)" by blast
    from valid have "k \<noteq> - 1"
      by (simp add: valid_checkpoint_index_def invalidCheckpointIndex_def)
    from mergedGap_not_max [OF srt lt this j(1)] j
    have "find_eviction_candidate st k \<noteq> length (slots st)"
      by (auto simp: find_eviction_candidate_none)
    with find_eviction_candidate_le [of st k] have i: "?i < length (slots st)" by simp
    let ?r = "step (slots st ! ?i)"
    let ?st' = "st\<lparr>slots := insert_sorted ?new (erase_at ?i (slots st)),
                    metrics := count_add ?r (metrics st)\<rparr>"
    have a: "add_checkpoint_and_get_index_to_remove st k False = Inr (?r, ?st')"
      by (rule add_evict [OF False i])
    have np: "\<not> persistent (slots st ! ?i)"
      by (rule find_eviction_candidate_some(1) [OF i])
    from i have rmem: "?r \<in> step ` set (slots st)" by simp
    with lt have "?r < k" by auto
    then have rv: "valid_checkpoint_index ?r"
      unfolding valid_checkpoint_index_def invalidCheckpointIndex_def
      by (metis word_order.extremum_strict)
    from np pers i have r0: "?r \<noteq> 0" by auto
    have sub: "set (erase_at ?i (slots st)) \<subseteq> set (slots st)"
      by (rule set_erase_at_subset)
    with lt have lt': "\<forall>x\<in>set (erase_at ?i (slots st)). step x < k" by blast
    have sl: "slots ?st' = erase_at ?i (slots st) @ [?new]"
      using lt' by (simp add: insert_sorted_greatest)
    have dist: "distinct (map step (slots st))"
      using strict by (simp add: strict_sorted_iff)
    have steps: "step ` set (erase_at ?i (slots st)) = step ` set (slots st) - {?r}"
      by (rule step_erase_at_distinct [OF dist i])
    have strict': "sorted_wrt (<) (map step (erase_at ?i (slots st)))"
      using strict by (simp add: map_erase_at sorted_erase_at)
    have "strategy_inv c ?st'"
      using strategy_inv_add [OF sinv a] by simp
    moreover have "sorted_wrt (<) (map step (slots ?st'))"
      unfolding sl by (rule strict_sorted_append_greatest [OF strict' lt'])
    moreover have "0 \<in> step ` set (slots ?st')"
      unfolding sl using steps zero r0 by auto
    moreover have "\<forall>x\<in>set (slots ?st'). persistent x \<longleftrightarrow> step x = 0"
      unfolding sl using pers sub k0 by auto
    ultimately have "r2_driver_state c ?st'"
      using c1 by (simp add: r2_driver_state_def)
    moreover have "stored_steps ?st' = insert k (stored_steps st - {?r})"
      using steps by (simp add: stored_steps_def)
    ultimately show ?thesis
      using a rv rmem by (simp add: stored_steps_def)
  qed
qed

lemma r2_erase:
  assumes inv: "r2_driver_state c st" and k0: "k \<noteq> 0"
  shows "r2_driver_state c (snd (erase_step st k)) \<and>
         stored_steps (snd (erase_step st k)) = stored_steps st - {k}"
proof -
  let ?x = "\<lparr>step = k, persistent = False\<rparr>"
  let ?st' = "snd (erase_step st k)"
  from inv have sinv: "strategy_inv c st" and c1: "1 \<le> c"
    and strict: "sorted_wrt (<) (map step (slots st))"
    and zero: "0 \<in> step ` set (slots st)"
    and pers: "\<forall>x\<in>set (slots st). persistent x \<longleftrightarrow> step x = 0"
    by (simp_all add: r2_driver_state_def)
  have sl: "slots ?st' = remove1 ?x (slots st)" by (simp add: erase_step_eq)
  have dist: "distinct (map step (slots st))"
    using strict by (simp add: strict_sorted_iff)
  have sinv': "strategy_inv c ?st'" by (rule strategy_inv_erase_step [OF sinv])
  have shape: "slots ?st' = slots st \<and> k \<notin> step ` set (slots st) \<or>
               (\<exists>i<length (slots st). step (slots st ! i) = k \<and> slots ?st' = erase_at i (slots st))"
  proof (cases "?x \<in> set (slots st)")
    case True
    from remove1_first [OF True] sl show ?thesis
      by (metis Slot.select_convs(1))
  next
    case False
    have "k \<notin> step ` set (slots st)"
    proof
      assume "k \<in> step ` set (slots st)"
      then obtain y where y: "y \<in> set (slots st)" "step y = k" by auto
      with pers k0 have "\<not> persistent y" by auto
      with y have "y = ?x" by (simp add: slot_eq_iff)
      with y False show False by simp
    qed
    with False sl show ?thesis by (simp add: remove1_idem)
  qed
  then show ?thesis
  proof
    assume "slots ?st' = slots st \<and> k \<notin> step ` set (slots st)"
    with inv sinv' show ?thesis
      by (auto simp: r2_driver_state_def stored_steps_def)
  next
    assume "\<exists>i<length (slots st). step (slots st ! i) = k \<and> slots ?st' = erase_at i (slots st)"
    then obtain i where i: "i < length (slots st)" "step (slots st ! i) = k"
      "slots ?st' = erase_at i (slots st)" by blast
    have steps: "step ` set (slots ?st') = step ` set (slots st) - {k}"
      using step_erase_at_distinct [OF dist i(1)] i(2,3) by simp
    have "sorted_wrt (<) (map step (slots ?st'))"
      using strict i(3) by (simp add: map_erase_at sorted_erase_at)
    moreover have "0 \<in> step ` set (slots ?st')"
      using steps zero k0 by auto
    moreover have "\<forall>x\<in>set (slots ?st'). persistent x \<longleftrightarrow> step x = 0"
      using pers set_erase_at_subset [of i "slots st"] i(3) by auto
    ultimately have "r2_driver_state c ?st'"
      using sinv' c1 by (simp add: r2_driver_state_def)
    with steps show ?thesis by (simp add: stored_steps_def)
  qed
qed

lemma r2_record:
  "r2_driver_state c st \<Longrightarrow>
     r2_driver_state c (record_recomputation st) \<and>
     stored_steps (record_recomputation st) = stored_steps st"
  by (simp add: r2_driver_state_def strategy_inv_def stored_steps_def record_recomputation_def)

lemma online_r2_contract:
  "strategy_contract OnlineR2_strategy (r2_driver_state c) stored_steps"
  unfolding strategy_contract_def
  using r2_last [of c] r2_add [of c] r2_erase [of c] r2_record [of c]
  by simp

lemma online_r2_init:
  assumes "1 \<le> unat C" and "C \<noteq> - 1"
  shows "add_checkpoint_and_get_index_to_remove (new_OnlineR2CheckpointStrategy C) 0 True =
           Inr (invalidCheckpointIndex,
                \<lparr>maxNumSlots = C + 1, slots = [\<lparr>step = 0, persistent = True\<rparr>],
                 metrics = \<lparr>stores = 1, evictions = 0, recomputations = 0\<rparr>\<rparr>)"
    and "r2_driver_state (unat C)
           \<lparr>maxNumSlots = C + 1, slots = [\<lparr>step = 0, persistent = True\<rparr>],
            metrics = \<lparr>stores = 1, evictions = 0, recomputations = 0\<rparr>\<rparr>"
    and "stored_steps
           \<lparr>maxNumSlots = C + 1, slots = [\<lparr>step = 0, persistent = True\<rparr>],
            metrics = \<lparr>stores = 1, evictions = 0, recomputations = 0\<rparr>\<rparr> = {0}"
proof -
  from assms(2) have "1 + C \<noteq> 0"
    by (metis add.commute add_eq_0_iff2)
  then have u: "unat (C + 1) = Suc (unat C)"
    using unatSuc [of C] by (simp add: add.commute)
  then have "length (slots (new_OnlineR2CheckpointStrategy C)) <
             unat (maxNumSlots (new_OnlineR2CheckpointStrategy C) + 1)"
    by (simp add: new_OnlineR2CheckpointStrategy_def)
  from add_persistent_ok [OF this, of 0]
  show "add_checkpoint_and_get_index_to_remove (new_OnlineR2CheckpointStrategy C) 0 True =
           Inr (invalidCheckpointIndex,
                \<lparr>maxNumSlots = C + 1, slots = [\<lparr>step = 0, persistent = True\<rparr>],
                 metrics = \<lparr>stores = 1, evictions = 0, recomputations = 0\<rparr>\<rparr>)"
    by (simp add: new_OnlineR2CheckpointStrategy_def insert_sorted_def insert_at_def
                  count_add_def valid_checkpoint_index_def)
  show "r2_driver_state (unat C)
           \<lparr>maxNumSlots = C + 1, slots = [\<lparr>step = 0, persistent = True\<rparr>],
            metrics = \<lparr>stores = 1, evictions = 0, recomputations = 0\<rparr>\<rparr>"
    using assms(1) u by (simp add: r2_driver_state_def strategy_inv_def)
  show "stored_steps
           \<lparr>maxNumSlots = C + 1, slots = [\<lparr>step = 0, persistent = True\<rparr>],
            metrics = \<lparr>stores = 1, evictions = 0, recomputations = 0\<rparr>\<rparr> = {0}"
    by (simp add: stored_steps_def)
qed

text \<open>
  The driver with an \<^verbatim>\<open>OnlineR2CheckpointStrategy(C)\<close>, \<open>1 \<le> C < SIZE_MAX\<close>, and
  \<open>N < SIZE_MAX\<close> steps.
\<close>

lemma online_r2_driver_correct:
  assumes "1 \<le> unat C" and "C \<noteq> - 1" and "N \<noteq> - 1"
  shows "advance_and_reverse_steps T OnlineR2_strategy N storageSize x0 u
           (new_OnlineR2CheckpointStrategy C) =
         Some (Inr (via_double T (naive_forward_state u x0 (unat N)),
                    reverse_calls u x0 (unat N)))"
proof -
  note i = online_r2_init [OF assms(1,2)]
  show ?thesis
    by (rule driver_correct [OF online_r2_contract _ i(2) i(3) assms(3)]) (simp add: i(1))
qed

section \<open>The claims about the driver\<close>

lemma excess_bits_example: "excess_bits 9007199254740993 = 1"
  by (simp add: excess_bits.simps [of 9007199254740993] excess_bits.simps [of 4503599627370496])

lemma round_to_double_example: "round_to_double 9007199254740993 = 9007199254740992"
  by (simp add: round_to_double_def excess_bits_example)

lemma long_via_double_example: "long_via_double 9007199254740993 = 9007199254740992"
  by (simp add: long_via_double_def round_to_double_example)

text \<open>
  C1 (amended): for every number of steps \<open>N < SIZE_MAX\<close>, initial state, deterministic
  update function and strategy that meets the \<^verbatim>\<open>CheckpointStrategy\<close> contract once step 0
  is registered as persistent, \<^verbatim>\<open>advance_and_reverse_steps\<close> returns and has invoked the
  reverse callback exactly \<open>N + 1\<close> times, with first arguments \<open>N, N - 1, \<dots>, 1, 0\<close> in
  this order (the last invocation has index 0), and in each invocation \<open>cb(i, x)\<close> the
  second argument is the forward state \<open>x\<^sub>i\<close>.
\<close>

theorem reverse_callback_sequence:
  assumes "strategy_contract S I stored"
    and "strategy_add S strategy 0 True = Inr (eraseStep0, cps0)"
    and "I cps0" and "stored cps0 = {0}"
    and "numSteps \<noteq> - 1"
  shows "\<exists>xf calls.
           advance_and_reverse_steps T S numSteps storageSize x update_func strategy =
             Some (Inr (xf, calls)) \<and>
           length calls = unat numSteps + 1 \<and>
           map fst calls = map of_nat (rev [0..<unat numSteps + 1]) \<and>
           (\<forall>i v. (i, v) \<in> set calls \<longrightarrow> v = naive_forward_state update_func x (unat i))"
proof -
  let ?calls = "reverse_calls update_func x (unat numSteps)"
  have "advance_and_reverse_steps T S numSteps storageSize x update_func strategy =
          Some (Inr (via_double T (naive_forward_state update_func x (unat numSteps)), ?calls))"
    by (rule driver_correct [OF assms])
  moreover have "length ?calls = unat numSteps + 1"
    by (simp add: reverse_calls_def)
  moreover have "map fst ?calls = map of_nat (rev [0..<unat numSteps + 1])"
    by (simp add: reverse_calls_def comp_def)
  moreover have "v = naive_forward_state update_func x (unat i)" if "(i, v) \<in> set ?calls" for i v
  proof -
    from that have "(i, v) \<in> (\<lambda>k. (of_nat k, naive_forward_state update_func x k)) `
                        {0..<Suc (unat numSteps)}"
      by (simp only: reverse_calls_def set_map set_rev set_upt)
    then obtain k where k: "k \<le> unat numSteps" "i = of_nat k"
      "v = naive_forward_state update_func x k"
      by (auto simp: less_Suc_eq_le)
    have "unat numSteps < 2 ^ 64" using unsigned_less [of numSteps] by simp
    with k(1) have "k < 2 ^ 64" by simp
    then have "unat (of_nat k :: size_t) = k"
      by (simp add: unat_of_nat)
    with k show ?thesis by simp
  qed
  ultimately show ?thesis by blast
qed

text \<open>
  One step, \<open>update(i, x) = x + 1\<close> from 0, an \<^verbatim>\<open>OnlineR2CheckpointStrategy(2)\<close>: the
  callback is invoked twice, the second time with index 0.
\<close>

theorem reverse_callback_sequence_counterexample:
  "advance_and_reverse_steps T_int32 OnlineR2_strategy 1 2 0 (\<lambda>i x. x + 1)
     (new_OnlineR2CheckpointStrategy 2) = Some (Inr (1, [(1, 1), (0, 0)]))"
proof -
  have "advance_and_reverse_steps T_int32 OnlineR2_strategy 1 2 0 (\<lambda>i x. x + 1)
          (new_OnlineR2CheckpointStrategy 2) =
        Some (Inr (via_double T_int32 (naive_forward_state (\<lambda>i x. x + 1) (0::int) (unat (1::size_t))),
                   reverse_calls (\<lambda>i x. x + 1) 0 (unat (1::size_t))))"
    by (rule online_r2_driver_correct) simp_all
  then show ?thesis
    by (simp add: T_int32_def reverse_calls_def)
qed

text \<open>Three steps with an \<^verbatim>\<open>OnlineR2CheckpointStrategy(2)\<close>, which meets the contract.\<close>

theorem reverse_callback_sequence_witness:
  "\<exists>xf calls.
     advance_and_reverse_steps T_int32 OnlineR2_strategy 3 2 0 (\<lambda>i x. x + 1)
       (new_OnlineR2CheckpointStrategy 2) = Some (Inr (xf, calls)) \<and>
     length calls = 4 \<and> map fst calls = [3, 2, 1, 0] \<and>
     (\<forall>i v. (i, v) \<in> set calls \<longrightarrow> v = naive_forward_state (\<lambda>i x. x + 1) 0 (unat i))"
proof -
  have c: "(1::nat) \<le> unat (2 :: size_t)" and m: "(2 :: size_t) \<noteq> - 1" and n: "(3 :: size_t) \<noteq> - 1"
    by simp_all
  have a: "strategy_add OnlineR2_strategy (new_OnlineR2CheckpointStrategy 2) 0 True =
             Inr (invalidCheckpointIndex,
                  \<lparr>maxNumSlots = 2 + 1, slots = [\<lparr>step = 0, persistent = True\<rparr>],
                   metrics = \<lparr>stores = 1, evictions = 0, recomputations = 0\<rparr>\<rparr>)"
    using online_r2_init(1) [OF c m] by simp
  have e: "rev [0..<unat (3 :: size_t) + 1] = [3, 2, 1, 0]"
    by (simp add: upt_rec)
  from reverse_callback_sequence [OF online_r2_contract a online_r2_init(2,3) [OF c m] n,
         of T_int32 2 0 "\<lambda>i x. x + 1"]
  show ?thesis unfolding e by simp
qed

text \<open>
  C2: the returned value is the final forward state \<open>x\<^sub>N\<close> only after the conversions of
  \<^verbatim>\<open>double xf = x;\<close> and \<^verbatim>\<open>return xf;\<close>. With \<open>T = long\<close>, one step and
  \<open>update(i, x) = x + 1\<close> from \<open>2 ^ 53\<close>, the forward state \<open>x\<^sub>1\<close> is \<open>2 ^ 53 + 1\<close> and the
  driver returns \<open>2 ^ 53\<close>.
\<close>

theorem return_value_failing_input:
  "advance_and_reverse_steps T_int64 OnlineR2_strategy 1 2 9007199254740992 (\<lambda>i x. x + 1)
     (new_OnlineR2CheckpointStrategy 2) =
     Some (Inr (9007199254740992, [(1, 9007199254740993), (0, 9007199254740992)])) \<and>
   naive_forward_state (\<lambda>i x. x + 1) (9007199254740992 :: int) 1 = 9007199254740993"
proof -
  have "advance_and_reverse_steps T_int64 OnlineR2_strategy 1 2 9007199254740992 (\<lambda>i x. x + 1)
          (new_OnlineR2CheckpointStrategy 2) =
        Some (Inr (via_double T_int64
                     (naive_forward_state (\<lambda>i x. x + 1) (9007199254740992::int) (unat (1::size_t))),
                   reverse_calls (\<lambda>i x. x + 1) 9007199254740992 (unat (1::size_t))))"
    by (rule online_r2_driver_correct) simp_all
  then show ?thesis
    by (simp add: T_int64_def reverse_calls_def long_via_double_example)
qed

end
